theory Spec2Isabelle
  imports Main "HOL-Library.Word"
begin

unbundle bit_operations_syntax

section \<open>Machine types\<close>

text \<open>
  The library is Arduino C++ for a 32-bit board: \<open>int\<close>, \<open>unsigned int\<close> and
  \<open>unsigned long\<close> are 32 bits wide (the decoder of the file table shifts a two-byte value
  left by eight inside an \<open>int\<close>, which needs more than 16 bits), \<open>byte\<close> is 8 bits.
  Unsigned arithmetic wraps; that is what \<open>+\<close>, \<open>-\<close> and \<open>*\<close> on words do.
\<close>

type_synonym byte = "8 word"
type_synonym uint = "32 word"

section \<open>The flash chip\<close>

text \<open>
  Modelled from the spec: the driver class \<open>W25Q64\<close> (\<open>lib/W25Q64/W25Q64.hpp\<close>) is
  not part of the sources. The spec gives its contract: a sector erase restores the 4096
  bytes of a sector, a page program can only clear bits, takes at most 256 bytes and must
  not cross a 256-byte boundary, every call but \<open>busy()\<close> is fire-and-forget, and the
  caller polls \<open>busy()\<close> before a dependent operation. The model below is one chip that
  meets this contract: after an erase or a program the chip answers \<open>settle\<close> polls with
  "busy", a command that arrives while it is busy or that breaks the page rule is
  dropped, and a read while busy reports \<open>W25Q64_BUSY\<close>. Every command the store sends
  is recorded in \<open>issued\<close>, whether the chip took it or not. \<open>erased\<close> and \<open>programmed\<close>
  are the cells after a sector erase and after a page program.
\<close>

datatype W25Q64_status_t = W25Q64_OK | W25Q64_BUSY | W25Q64_FAIL

datatype flash_cmd = WriteEnable | SectorErase uint | PageProgram uint uint

record W25Q64 =
  cells :: "uint \<Rightarrow> byte"
  busy_polls :: nat
  settle :: nat
  issued :: "flash_cmd list"

definition busy :: "W25Q64 \<Rightarrow> bool \<times> W25Q64" where
  "busy d = (0 < busy_polls d, d\<lparr>busy_polls := busy_polls d - 1\<rparr>)"

definition writeEnable :: "W25Q64 \<Rightarrow> W25Q64" where
  "writeEnable d = d\<lparr>issued := issued d @ [WriteEnable]\<rparr>"

definition erased :: "(uint \<Rightarrow> byte) \<Rightarrow> uint \<Rightarrow> uint \<Rightarrow> byte" where
  "erased c a x = (if drop_bit 12 x = drop_bit 12 a then 0xFF else c x)"

definition programmed :: "(uint \<Rightarrow> byte) \<Rightarrow> uint \<Rightarrow> byte list \<Rightarrow> uint \<Rightarrow> byte" where
  "programmed c a bs x = (if unat (x - a) < length bs then c x AND bs ! unat (x - a) else c x)"

definition sectorErase :: "W25Q64 \<Rightarrow> uint \<Rightarrow> W25Q64" where
  "sectorErase d a =
     (if 0 < busy_polls d then d\<lparr>issued := issued d @ [SectorErase a]\<rparr>
      else d\<lparr>issued := issued d @ [SectorErase a],
             cells := erased (cells d) a,
             busy_polls := settle d\<rparr>)"

definition pageProgram :: "W25Q64 \<Rightarrow> uint \<Rightarrow> byte list \<Rightarrow> W25Q64" where
  "pageProgram d a bs =
     (if 0 < busy_polls d \<or> 256 < unat (a AND 0xFF) + length bs
      then d\<lparr>issued := issued d @ [PageProgram a (of_nat (length bs))]\<rparr>
      else d\<lparr>issued := issued d @ [PageProgram a (of_nat (length bs))],
             cells := programmed (cells d) a bs,
             busy_polls := settle d\<rparr>)"

definition readData :: "W25Q64 \<Rightarrow> uint \<Rightarrow> uint \<Rightarrow> W25Q64_status_t \<times> byte list" where
  "readData d a n =
     (if 0 < busy_polls d then (W25Q64_BUSY, [])
      else (W25Q64_OK, map (\<lambda>k. cells d (a + of_nat k)) [0..<unat n]))"

definition fastRead :: "W25Q64 \<Rightarrow> uint \<Rightarrow> uint \<Rightarrow> W25Q64_status_t \<times> byte list" where
  "fastRead d a n = readData d a n"

text \<open>The polling loop \<open>while(_flash.busy());\<close> of the store.\<close>

function wait_idle :: "W25Q64 \<Rightarrow> W25Q64" where
  "wait_idle d = (case busy d of (True, d') \<Rightarrow> wait_idle d' | (False, d') \<Rightarrow> d')"
  by pat_completeness auto
termination
  by (relation "measure busy_polls") (auto simp: busy_def)

section \<open>The store: data\<close>

datatype FlashStorage_status_t =
    FLASH_STORAGE_OK
  | FLASH_STORAGE_FLASH_FAIL
  | FLASH_STORAGE_BUSY
  | FLASH_STORAGE_NO_FAT_FOUND
  | FLASH_STORAGE_NO_SPACE
  | FLASH_STORAGE_INVALID_FILE
  | FLASH_STORAGE_WRONG_MODE

datatype FlashStorageMode =
    FLASH_STORAGE_NO_MODE
  | FLASH_STORAGE_READ_MODE
  | FLASH_STORAGE_WRITE_MODE

record FlashStorageFile =
  start_addr :: uint
  end_addr :: uint

text \<open>
  \<open>files\<close> is the array \<open>files[FLASH_STORAGE_MAX_FILE_NUMBER]\<close>, accessed by its index. The
  slots \<open>0 .. 31\<close> are the table. C++ does not check an index: an access at another index
  reaches the bytes that lie beside the table in the object. The model keeps them as the
  value of \<open>files\<close> at that index, about which nothing is known at the start. \<open>close\<close> and
  \<open>newFile\<close> store through \<open>_opened_file - 1\<close> and \<open>file_count - 1\<close> without a check, and so
  do they here: the store is to \<open>files\<close> at that index and the operation carries on. Only
  the decoder loop, which would run over \<open>file_count\<close> and the members behind the table
  one record after the other, stops at the end of the table with a \<open>fault\<close>.
\<close>

record FlashStorageFAT =
  files :: "uint \<Rightarrow> FlashStorageFile"
  file_count :: uint

record FlashStorage =
  buff :: "byte list"
  buff_index :: uint
  opened_file :: uint
  curr_addr :: uint
  max_erased_addr :: uint
  flash :: W25Q64
  flash_status :: W25Q64_status_t
  fat :: FlashStorageFAT
  mode :: FlashStorageMode

definition FLASH_STORAGE_IDENTIFICATION_STRING :: "byte list" where
  "FLASH_STORAGE_IDENTIFICATION_STRING = [0x46, 0x4C, 0x41, 0x53, 0x48, 0x00]"

definition FLASH_STORAGE_FIFO_BUFFER_SIZE :: uint where
  "FLASH_STORAGE_FIFO_BUFFER_SIZE = 1024"

definition FLASH_STORAGE_MAX_FILE_NUMBER :: uint where
  "FLASH_STORAGE_MAX_FILE_NUMBER = 32"

definition lookahead_erase_size :: uint where
  "lookahead_erase_size = 1024"

text \<open>
  What C++ leaves undefined and the model cannot continue from: the decoder loop running
  off the file table, an access outside a byte array, a shift by the width of \<open>int\<close> or
  more, a read of a local array that was never filled.
\<close>

datatype fault =
    TableOutOfRange uint
  | BufferOutOfRange nat nat
  | ShiftOutOfRange nat
  | Uninitialised

text \<open>\<open>n\<close> bytes of an array from offset \<open>off\<close>, as a pointer and a length hand them on.\<close>

definition slice :: "nat \<Rightarrow> byte list \<Rightarrow> nat \<Rightarrow> nat \<Rightarrow> fault + byte list" where
  "slice cap bs off n =
     (if off + n \<le> cap then Inr (take n (drop off bs)) else Inl (BufferOutOfRange off n))"

text \<open>\<open>memcpy(&dst[off], src, n)\<close> into an array of \<open>cap\<close> bytes.\<close>

definition memcpy :: "nat \<Rightarrow> byte list \<Rightarrow> nat \<Rightarrow> byte list \<Rightarrow> fault + byte list" where
  "memcpy cap dst off src =
     (if off + length src \<le> cap
      then Inr (take off dst @ src @ drop (off + length src) dst)
      else Inl (BufferOutOfRange off (length src)))"


section \<open>The file table on the chip\<close>

text \<open>
  \<open>readFAT\<close>, the loop that rebuilds the records. Bytes are promoted to \<open>int\<close>; in
  \<open>a << 8 + b\<close> the sum binds tighter than the shift, so the end address is the two-byte
  value shifted by \<open>8 + b\<close>.
\<close>

function readFAT_files :: "byte list \<Rightarrow> nat \<Rightarrow> nat \<Rightarrow> FlashStorageFAT \<Rightarrow> fault + FlashStorageFAT" where
  "readFAT_files fat_contents n i t =
     (if i < n then
        if \<not> i < 32 then Inl (TableOutOfRange (of_nat i))
        else if 32 \<le> 8 + unat (fat_contents ! (i * 5 + 4))
        then Inl (ShiftOutOfRange (8 + unat (fat_contents ! (i * 5 + 4))))
        else readFAT_files fat_contents n (i + 1)
          (t\<lparr>files := (files t)(of_nat i :=
              \<lparr>start_addr =
                 push_bit 8 (push_bit 8 (ucast (fat_contents ! (i * 5)))
                             OR ucast (fat_contents ! (i * 5 + 1))),
               end_addr =
                 push_bit (8 + unat (fat_contents ! (i * 5 + 4)))
                   (push_bit 8 (ucast (fat_contents ! (i * 5 + 2)))
                    OR ucast (fat_contents ! (i * 5 + 3)))\<rparr>)\<rparr>)
      else Inr t)"
  by pat_completeness auto
termination
  by (relation "measure (\<lambda>(c, n, i, t). n - i)") auto


text \<open>
  \<open>writeFAT\<close>: the image of the table (the local array \<open>buff\<close> of \<open>fat_size\<close> bytes), and the
  loop that programs it, every chunk at address 0.
\<close>

definition writeFAT_record :: "FlashStorageFile \<Rightarrow> byte list" where
  "writeFAT_record f =
     [ucast (drop_bit 16 (start_addr f)), ucast (drop_bit 8 (start_addr f)),
      ucast (drop_bit 16 (end_addr f)), ucast (drop_bit 8 (end_addr f)),
      ucast (end_addr f)]"

definition writeFAT_buff :: "FlashStorageFAT \<Rightarrow> uint \<Rightarrow> byte list" where
  "writeFAT_buff t opened =
     FLASH_STORAGE_IDENTIFICATION_STRING @ [ucast (file_count t), ucast opened]
     @ concat (map (\<lambda>i. writeFAT_record (files t (of_nat i))) [0..<unat (file_count t)])"

definition page_size :: "uint \<Rightarrow> uint" where
  "page_size n =
     (let size1 = (if n <s 0 then n + 256 else n)
      in if 256 <s size1 then 256 else size1)"

function writeFAT_pages :: "byte list \<Rightarrow> uint \<Rightarrow> uint \<Rightarrow> W25Q64 \<Rightarrow> fault + W25Q64" where
  "writeFAT_pages img fat_size p d =
     (if p < 1 + fat_size div 256 then
        (let d1 = writeEnable (wait_idle d);
             size2 = page_size (fat_size - p * 256)
         in case slice (length img) img (unat (p * 256)) (unat size2) of
              Inl f \<Rightarrow> Inl f
            | Inr bs \<Rightarrow> writeFAT_pages img fat_size (p + 1) (pageProgram d1 0 bs))
      else Inr d)"
  by pat_completeness auto
termination
proof (relation "measure (\<lambda>(img, fat_size, p, d). unat (1 + fat_size div 256) - unat p)",
    goal_cases)
  case 1
  show ?case by simp
next
  case below: (2 img fat_size p d)
  from below(1) have "unat p < unat (1 + fat_size div 256)" and "unat (p + 1) = Suc (unat p)"
    by unat_arith+
  then show ?case by simp
qed

definition writeFAT :: "FlashStorage \<Rightarrow> fault + (FlashStorage_status_t \<times> FlashStorage)" where
  "writeFAT s =
     (case busy (flash s) of
        (True, d) \<Rightarrow> Inr (FLASH_STORAGE_BUSY, s\<lparr>flash := d\<rparr>)
      | (False, d) \<Rightarrow>
          let d1 = sectorErase (writeEnable d) 0;
              id_size = of_nat (length FLASH_STORAGE_IDENTIFICATION_STRING);
              header_size = id_size + 2;
              fat_size = header_size + file_count (fat s) * 5;
              img = writeFAT_buff (fat s) (opened_file s)
          in if length img \<noteq> unat fat_size
             then Inl (BufferOutOfRange (unat fat_size) (length img))
             else (case writeFAT_pages img fat_size 0 d1 of
                     Inl f \<Rightarrow> Inl f
                   | Inr d2 \<Rightarrow> Inr (FLASH_STORAGE_OK, s\<lparr>flash := d2\<rparr>)))"

section \<open>The write pipeline and the erase scheduler\<close>

text \<open>
  \<open>writeFIFO\<close>, the loop over the pages of the buffer. \<open>p\<close> is an \<open>int\<close> that is compared
  and multiplied as unsigned; \<open>size\<close> is the \<open>int\<close> that \<open>page_size\<close> clamps.
\<close>

function writeFIFO_pages :: "uint \<Rightarrow> uint \<Rightarrow> FlashStorage \<Rightarrow> fault + FlashStorage" where
  "writeFIFO_pages offset p s =
     (if p < (buff_index s - offset) div 256 + 1 then
        (let d1 = writeEnable (wait_idle (flash s));
             size2 = page_size ((buff_index s - offset) - p * 256)
         in case slice (unat FLASH_STORAGE_FIFO_BUFFER_SIZE) (buff s)
                   (unat (p * 256 + offset)) (unat size2) of
              Inl f \<Rightarrow> Inl f
            | Inr bs \<Rightarrow>
                writeFIFO_pages offset (p + 1)
                  (s\<lparr>flash := pageProgram d1 (curr_addr s) bs,
                     curr_addr := curr_addr s + size2\<rparr>))
      else Inr s)"
  by pat_completeness auto
termination
proof (relation
    "measure (\<lambda>(offset, p, s). unat ((buff_index s - offset) div 256 + 1) - unat p)",
    goal_cases)
  case 1
  show ?case by simp
next
  case below: (2 offset p s)
  from below(1) have "unat p < unat ((buff_index s - offset) div 256 + 1)"
    and "unat (p + 1) = Suc (unat p)"
    by unat_arith+
  then show ?case by simp
qed

text \<open>
  In \<open>_curr_addr>>8+1<<8\<close> the sum binds tighter than the shifts: the cursor is shifted
  right by nine and left by eight.
\<close>

definition writeFIFO :: "FlashStorage \<Rightarrow> fault + (FlashStorage_status_t \<times> FlashStorage)" where
  "writeFIFO s =
     (let s1 = (if max_erased_addr s \<le> curr_addr s + buff_index s
                then s\<lparr>flash := sectorErase (writeEnable (wait_idle (flash s)))
                                   (max_erased_addr s),
                        max_erased_addr := max_erased_addr s + 4096\<rparr>
                else s)
      in case (if curr_addr s1 mod 256 \<noteq> 0 then
                 (let remaining = push_bit 8 (drop_bit (8 + 1) (curr_addr s1)) - curr_addr s1;
                      d = writeEnable (wait_idle (flash s1))
                  in case slice (unat FLASH_STORAGE_FIFO_BUFFER_SIZE) (buff s1) 0
                            (unat remaining) of
                       Inl f \<Rightarrow> Inl f
                     | Inr bs \<Rightarrow>
                         Inr (remaining,
                              s1\<lparr>flash := pageProgram d (curr_addr s1) bs,
                                 curr_addr := curr_addr s1 + remaining\<rparr>))
               else Inr (0, s1)) of
           Inl f \<Rightarrow> Inl f
         | Inr (offset, s2) \<Rightarrow>
             (case writeFIFO_pages offset 0 s2 of
                Inl f \<Rightarrow> Inl f
              | Inr s3 \<Rightarrow> Inr (FLASH_STORAGE_OK, s3\<lparr>buff_index := 0\<rparr>)))"

definition eraseNextSector :: "FlashStorage \<Rightarrow> FlashStorage_status_t \<times> FlashStorage" where
  "eraseNextSector s =
     (case busy (flash s) of
        (True, d) \<Rightarrow> (FLASH_STORAGE_BUSY, s\<lparr>flash := d\<rparr>)
      | (False, d) \<Rightarrow>
          (FLASH_STORAGE_OK,
           s\<lparr>flash := sectorErase (writeEnable d) (max_erased_addr s),
             max_erased_addr := max_erased_addr s + 4096\<rparr>))"

section \<open>The file lifecycle\<close>

text \<open>
  \<open>close\<close>. The statements \<open>_mode == FLASH_STORAGE_NO_MODE;\<close> of both branches compare
  and discard the result, so the mode stays as it was. The end address is stored through
  \<open>_opened_file - 1\<close> unchecked.
\<close>

definition close :: "FlashStorage \<Rightarrow> fault + (FlashStorage_status_t \<times> FlashStorage)" where
  "close s =
     (case mode s of
        FLASH_STORAGE_NO_MODE \<Rightarrow> Inr (FLASH_STORAGE_OK, s)
      | FLASH_STORAGE_WRITE_MODE \<Rightarrow>
          (case writeFIFO s of
             Inl f \<Rightarrow> Inl f
           | Inr (r, s1) \<Rightarrow>
               let s2 = s1\<lparr>fat := (fat s1)\<lparr>files := (files (fat s1))
                            (opened_file s1 - 1 :=
                               (files (fat s1) (opened_file s1 - 1))
                                 \<lparr>end_addr := curr_addr s1\<rparr>)\<rparr>,
                          opened_file := 0\<rparr>;
                   s3 = s2\<lparr>flash := wait_idle (flash s2)\<rparr>
               in (case writeFAT s3 of
                     Inl f \<Rightarrow> Inl f
                   | Inr (r', s4) \<Rightarrow>
                       Inr (FLASH_STORAGE_OK, s4\<lparr>curr_addr := 0, max_erased_addr := 0\<rparr>)))
      | FLASH_STORAGE_READ_MODE \<Rightarrow>
          Inr (FLASH_STORAGE_OK, s\<lparr>opened_file := 0, curr_addr := 0, max_erased_addr := 0\<rparr>))"

definition newFile :: "FlashStorage \<Rightarrow> fault + (FlashStorage_status_t \<times> FlashStorage)" where
  "newFile s =
     (case close s of
        Inl f \<Rightarrow> Inl f
      | Inr (r, s0) \<Rightarrow>
          if file_count (fat s0) + 1 < FLASH_STORAGE_MAX_FILE_NUMBER then
            (let new_addr =
                   (if file_count (fat s0) \<noteq> 0
                    then push_bit 12
                           (drop_bit 12 (end_addr (files (fat s0) (file_count (fat s0) - 1))) + 1)
                    else push_bit 12 1);
                 cnt = file_count (fat s0) + 1;
                 t = (fat s0)\<lparr>file_count := cnt,
                        files := (files (fat s0))
                          (cnt - 1 := (files (fat s0) (cnt - 1))
                             \<lparr>start_addr := new_addr, end_addr := new_addr\<rparr>)\<rparr>;
                 s1 = s0\<lparr>fat := t, opened_file := cnt, mode := FLASH_STORAGE_WRITE_MODE\<rparr>;
                 d = sectorErase (writeEnable (wait_idle (flash s1))) new_addr;
                 s2 = s1\<lparr>flash := wait_idle d, curr_addr := new_addr,
                        max_erased_addr := new_addr + 4096\<rparr>
             in writeFAT s2)
          else Inr (FLASH_STORAGE_NO_SPACE, s0))"

definition openFile :: "FlashStorage \<Rightarrow> uint \<Rightarrow> fault + (FlashStorage_status_t \<times> FlashStorage)" where
  "openFile s file_index =
     (case close s of
        Inl f \<Rightarrow> Inl f
      | Inr (r, s0) \<Rightarrow>
          if file_count (fat s0) < file_index then Inr (FLASH_STORAGE_INVALID_FILE, s0)
          else
            let s1 = s0\<lparr>opened_file := file_index\<rparr>;
                s2 = s1\<lparr>curr_addr := start_addr (files (fat s1) (opened_file s1 - 1)),
                       mode := FLASH_STORAGE_READ_MODE\<rparr>
            in Inr (FLASH_STORAGE_OK, s2\<lparr>flash := wait_idle (flash s2)\<rparr>))"

text \<open>
  \<open>write\<close>. The byte list is the caller's array and its length the argument \<open>length\<close>, an
  \<open>unsigned int\<close>. The loop that flushes whole buffers compares \<open>index + 1024\<close>, which can
  wrap, with \<open>length\<close>: it need not end, so it is a partial function and \<open>None\<close> is "does
  not return".
\<close>

partial_function (option) write_loop ::
    "byte list \<Rightarrow> uint \<Rightarrow> FlashStorage \<Rightarrow> (fault + (uint \<times> FlashStorage)) option" where
  "write_loop data index s =
     (if index + FLASH_STORAGE_FIFO_BUFFER_SIZE < of_nat (length data) then
        (case memcpy (unat FLASH_STORAGE_FIFO_BUFFER_SIZE) (buff s) 0
                (take (unat FLASH_STORAGE_FIFO_BUFFER_SIZE) (drop (unat index) data)) of
           Inl f \<Rightarrow> Some (Inl f)
         | Inr b \<Rightarrow>
             (case writeFIFO (s\<lparr>buff := b, buff_index := FLASH_STORAGE_FIFO_BUFFER_SIZE\<rparr>) of
                Inl f \<Rightarrow> Some (Inl f)
              | Inr (r, s') \<Rightarrow> write_loop data (index + FLASH_STORAGE_FIFO_BUFFER_SIZE) s'))
      else Some (Inr (index, s)))"

definition write_fill :: "FlashStorage \<Rightarrow> byte list \<Rightarrow> (fault + FlashStorage) option" where
  "write_fill s data =
     (let len = of_nat (length data);
          remaining = FLASH_STORAGE_FIFO_BUFFER_SIZE - buff_index s
      in if len < remaining then
           (case memcpy (unat FLASH_STORAGE_FIFO_BUFFER_SIZE) (buff s) (unat (buff_index s))
                   data of
              Inl f \<Rightarrow> Some (Inl f)
            | Inr b \<Rightarrow> Some (Inr (s\<lparr>buff := b, buff_index := buff_index s + len\<rparr>)))
         else
           (case memcpy (unat FLASH_STORAGE_FIFO_BUFFER_SIZE) (buff s) (unat (buff_index s))
                   (take (unat remaining) data) of
              Inl f \<Rightarrow> Some (Inl f)
            | Inr b \<Rightarrow>
                (case writeFIFO (s\<lparr>buff := b, buff_index := buff_index s + remaining\<rparr>) of
                   Inl f \<Rightarrow> Some (Inl f)
                 | Inr (r, s1) \<Rightarrow>
                     (case write_loop data remaining s1 of
                        None \<Rightarrow> None
                      | Some (Inl f) \<Rightarrow> Some (Inl f)
                      | Some (Inr (index, s2)) \<Rightarrow>
                          (case memcpy (unat FLASH_STORAGE_FIFO_BUFFER_SIZE) (buff s2) 0
                                  (take (unat (len - index)) (drop (unat index) data)) of
                             Inl f \<Rightarrow> Some (Inl f)
                           | Inr b2 \<Rightarrow>
                               Some (Inr (s2\<lparr>buff := b2,
                                             buff_index := buff_index s2 + (len - index)\<rparr>)))))))"

definition "write" ::
    "FlashStorage \<Rightarrow> byte list \<Rightarrow> (fault + (FlashStorage_status_t \<times> FlashStorage)) option" where
  "write s data =
     (if mode s \<noteq> FLASH_STORAGE_WRITE_MODE then Some (Inr (FLASH_STORAGE_WRONG_MODE, s))
      else
        (case write_fill s data of
           None \<Rightarrow> None
         | Some (Inl f) \<Rightarrow> Some (Inl f)
         | Some (Inr s3) \<Rightarrow>
             if max_erased_addr s3 - lookahead_erase_size < curr_addr s3
             then Some (Inr (eraseNextSector s3))
             else Some (Inr (FLASH_STORAGE_OK, s3))))"

text \<open>
  \<open>read\<close> returns the count and, here, the bytes that the driver put into the caller's
  array; \<open>peek\<close> the bytes left.
\<close>

definition read :: "FlashStorage \<Rightarrow> uint \<Rightarrow> uint \<times> byte list \<times> FlashStorage" where
  "read s length0 =
     (if mode s \<noteq> FLASH_STORAGE_READ_MODE then (0, [], s)
      else
        let left = end_addr (files (fat s) (opened_file s - 1)) - curr_addr s;
            length1 = (if left < length0 then left else length0)
        in case fastRead (flash s) (curr_addr s) length1 of
             (st, bs) \<Rightarrow>
               if st \<noteq> W25Q64_OK then (0, bs, s\<lparr>flash_status := st\<rparr>)
               else (length1, bs,
                     s\<lparr>flash_status := st, curr_addr := curr_addr s + length1\<rparr>))"

definition peek :: "FlashStorage \<Rightarrow> uint" where
  "peek s =
     (if mode s \<noteq> FLASH_STORAGE_READ_MODE then 0
      else end_addr (files (fat s) (opened_file s - 1)) - curr_addr s)"

section \<open>Concrete stores and the table format as the spec words it\<close>

text \<open>
  A chip that was never written and a store on it with an empty table, as a global
  object starts (all members zero), for evaluating the operations.
\<close>

definition blank_chip :: W25Q64 where
  "blank_chip = \<lparr>cells = (\<lambda>a. 0xFF), busy_polls = 0, settle = 3, issued = []\<rparr>"

definition fresh_store :: FlashStorage where
  "fresh_store =
     \<lparr>buff = replicate 1024 0, buff_index = 0, opened_file = 0, curr_addr = 0,
      max_erased_addr = 0, flash = blank_chip, flash_status = W25Q64_OK,
      fat = \<lparr>files = (\<lambda>i. \<lparr>start_addr = 0, end_addr = 0\<rparr>), file_count = 0\<rparr>,
      mode = FLASH_STORAGE_NO_MODE\<rparr>"

text \<open>A store that has the only file of its table open for reading, three bytes long.\<close>

definition reading_store :: FlashStorage where
  "reading_store =
     fresh_store
       \<lparr>fat := \<lparr>files = (\<lambda>i. \<lparr>start_addr = 0x1000, end_addr = 0x1003\<rparr>), file_count = 1\<rparr>,
        opened_file := 1, curr_addr := 0x1000, mode := FLASH_STORAGE_READ_MODE\<rparr>"

text \<open>
  A store in the state in which \<open>newFile\<close> leaves the fresh store (one empty file from
  \<open>0x1000\<close>, open for writing), on the idle blank chip; and one whose cursor stands inside
  a page, with 100 bytes in the buffer.
\<close>

definition writing_store :: FlashStorage where
  "writing_store =
     fresh_store
       \<lparr>fat := \<lparr>files = (\<lambda>i. \<lparr>start_addr = 0, end_addr = 0\<rparr>)
                          (0 := \<lparr>start_addr = 0x1000, end_addr = 0x1000\<rparr>),
                 file_count = 1\<rparr>,
        opened_file := 1, curr_addr := 0x1000, max_erased_addr := 0x2000,
        mode := FLASH_STORAGE_WRITE_MODE\<rparr>"

definition unaligned_store :: FlashStorage where
  "unaligned_store = writing_store\<lparr>curr_addr := 4196, buff_index := 100\<rparr>"

text \<open>
  The end address of a record as the spec's formula reads,
  \<open>end_addr = ((b2<<8 | b3) << 8) + b4\<close>, to compare \<open>readFAT_files\<close> with.
\<close>

definition spec_end_addr :: "byte \<Rightarrow> byte \<Rightarrow> byte \<Rightarrow> uint" where
  "spec_end_addr b2 b3 b4 = push_bit 8 (push_bit 8 (ucast b2) OR ucast b3) + ucast b4"

section \<open>Write sessions\<close>

text \<open>
  The addresses of the sector erases in a list of commands, in the order of issue, and
  those that the chip was sent after its first \<open>base\<close> commands.
\<close>

definition erase_addrs :: "flash_cmd list \<Rightarrow> uint list" where
  "erase_addrs cs = concat (map (\<lambda>c. case c of SectorErase a \<Rightarrow> [a] | _ \<Rightarrow> []) cs)"

definition erased_since :: "nat \<Rightarrow> FlashStorage \<Rightarrow> uint list" where
  "erased_since base s = erase_addrs (drop base (issued (flash s)))"

text \<open>
  The chip after the flush of a full buffer \<open>b\<close> at the cursor \<open>c\<close>: four pages of 256 bytes
  and the empty program call of the fifth pass of the loop.
\<close>

definition full_flush :: "W25Q64 \<Rightarrow> uint \<Rightarrow> byte list \<Rightarrow> W25Q64" where
  "full_flush d c b =
     pageProgram (writeEnable (wait_idle
    (pageProgram (writeEnable (wait_idle
    (pageProgram (writeEnable (wait_idle
    (pageProgram (writeEnable (wait_idle
    (pageProgram (writeEnable (wait_idle d)) c (take 256 b))))
       (c + 256) (take 256 (drop 256 b)))))
       (512 + c) (take 256 (drop 512 b)))))
       (768 + c) (take 256 (drop 768 b)))))
       (1024 + c) []"

text \<open>
  The state of a write session between two calls of \<open>write\<close>: the cursor is a multiple of
  the buffer size and lies below the erased frontier, which is a sector boundary at most
  one sector ahead; no erase since the command \<open>base\<close> went to the frontier or beyond, the
  sector that ends at the frontier was erased once, and the cells from the cursor to the
  frontier are blank.
\<close>

definition session_inv :: "nat \<Rightarrow> FlashStorage \<Rightarrow> bool" where
  "session_inv base s \<longleftrightarrow>
     mode s = FLASH_STORAGE_WRITE_MODE
   \<and> unat (buff_index s) \<le> 1024
   \<and> 1024 dvd unat (curr_addr s)
   \<and> 4096 dvd unat (max_erased_addr s)
   \<and> unat (curr_addr s) < unat (max_erased_addr s)
   \<and> unat (max_erased_addr s) \<le> unat (curr_addr s) + 4096
   \<and> base \<le> length (issued (flash s))
   \<and> (\<forall>a \<in> set (erased_since base s). unat a < unat (max_erased_addr s))
   \<and> count_list (erased_since base s) (max_erased_addr s - 4096) = 1
   \<and> (\<forall>x. unat (curr_addr s) \<le> unat x \<and> unat x < unat (max_erased_addr s)
          \<longrightarrow> cells (flash s) x = 0xFF)"

text \<open>
  A sequence of \<open>write\<close> calls, one byte list for each; it ends at the first call that
  faults or does not return.
\<close>

fun writes ::
    "FlashStorage \<Rightarrow> byte list list
      \<Rightarrow> (fault + (FlashStorage_status_t list \<times> FlashStorage)) option" where
  "writes s [] = Some (Inr ([], s))"
| "writes s (d # ds) =
     (case write s d of
        None \<Rightarrow> None
      | Some (Inl f) \<Rightarrow> Some (Inl f)
      | Some (Inr (r, s1)) \<Rightarrow>
          (case writes s1 ds of
             None \<Rightarrow> None
           | Some (Inl f) \<Rightarrow> Some (Inl f)
           | Some (Inr (rs, s2)) \<Rightarrow> Some (Inr (r # rs, s2))))"

text \<open>
  The bytes \<open>D\<close> of the open file that starts at \<open>start\<close>: those below the cursor are in
  the cells of the chip, the others are the filled part of the buffer, which is the array
  of 1024 bytes.
\<close>

definition file_inv :: "uint \<Rightarrow> byte list \<Rightarrow> FlashStorage \<Rightarrow> bool" where
  "file_inv start D s \<longleftrightarrow>
     length (buff s) = 1024
   \<and> unat start \<le> unat (curr_addr s)
   \<and> length D = unat (curr_addr s) - unat start + unat (buff_index s)
   \<and> (\<forall>k. k < unat (curr_addr s) - unat start \<longrightarrow> cells (flash s) (start + of_nat k) = D ! k)
   \<and> take (unat (buff_index s)) (buff s) = drop (unat (curr_addr s) - unat start) D"

text \<open>
  The start address that \<open>newFile\<close> computes from the table, and the state in which
  \<open>newFile\<close> leaves the store \<open>sc\<close> that its \<open>close\<close> returned.
\<close>

definition next_start :: "FlashStorageFAT \<Rightarrow> uint" where
  "next_start t =
     (if file_count t \<noteq> 0
      then push_bit 12 (drop_bit 12 (end_addr (files t (file_count t - 1))) + 1)
      else push_bit 12 1)"

definition created :: "FlashStorage \<Rightarrow> FlashStorage" where
  "created sc =
     (let c = file_count (fat sc); new = next_start (fat sc);
          t = (fat sc)\<lparr>file_count := c + 1,
                 files := (files (fat sc))
                   (c := (files (fat sc) c)\<lparr>start_addr := new, end_addr := new\<rparr>)\<rparr>
      in sc\<lparr>opened_file := c + 1, curr_addr := new, max_erased_addr := new + 4096,
            flash := pageProgram (writeEnable (wait_idle (sectorErase (writeEnable (wait_idle
                       (sectorErase (writeEnable (wait_idle (flash sc))) new))) 0))) 0
                       (writeFAT_buff t (c + 1)),
            fat := t, mode := FLASH_STORAGE_WRITE_MODE\<rparr>)"

text \<open>
  Two writes, of 3000 and of 2000 bytes; the second one crosses a sector boundary.
\<close>

definition two_writes :: "byte list list" where
  "two_writes = [replicate 3000 0x11, replicate 2000 0x22]"

text \<open>
  5000 bytes that differ from their neighbours, and one write of 5000 bytes: either takes
  the flush loop of \<open>write\<close> around three times and crosses a sector boundary.
\<close>

definition sample_bytes :: "byte list" where
  "sample_bytes = map of_nat [0..<5000]"

definition long_write :: "byte list list" where
  "long_write = [replicate 5000 0x5A]"

section \<open>Sequences of new files\<close>




section \<open>Tables that the record format holds\<close>




section \<open>Basic facts\<close>

declare readFAT_files.simps [simp del]
declare writeFAT_pages.simps [simp del]
declare writeFIFO_pages.simps [simp del]
declare wait_idle.simps [simp del]

lemma wait_idle_eq [simp]: "wait_idle d = d\<lparr>busy_polls := 0\<rparr>"
proof (induction "busy_polls d" arbitrary: d)
  case 0
  then show ?case by (subst wait_idle.simps) (simp add: busy_def)
next
  case (Suc n)
  from Suc(2) [symmetric] have "wait_idle d = wait_idle (d\<lparr>busy_polls := n\<rparr>)"
    by (subst wait_idle.simps) (simp add: busy_def)
  also have "\<dots> = d\<lparr>busy_polls := 0\<rparr>"
    using Suc(1) [of "d\<lparr>busy_polls := n\<rparr>"] by simp
  finally show ?case .
qed

lemma unat_minus_one_uint: "unat (- 1 :: uint) = 4294967295"
  by (simp add: unsigned_minus_1_eq_mask mask_eq_exp_minus_1)

named_theorems flash_defs

lemmas [flash_defs] =
  busy_def writeEnable_def sectorErase_def pageProgram_def readData_def fastRead_def
  slice_def memcpy_def page_size_def FLASH_STORAGE_FIFO_BUFFER_SIZE_def
  FLASH_STORAGE_MAX_FILE_NUMBER_def FLASH_STORAGE_IDENTIFICATION_STRING_def
  lookahead_erase_size_def word_sless_alt unat_minus_one_uint

named_theorems store_defs

lemmas [store_defs] =
  newFile_def close_def openFile_def write_def write_fill_def write_loop.simps
  writeFAT_def writeFAT_buff_def writeFAT_record_def writeFAT_pages.simps writeFIFO_def
  writeFIFO_pages.simps eraseNextSector_def Let_def

lemma writeFIFO_pages_frame:
  "writeFIFO_pages offset p s = Inr s' \<Longrightarrow>
     buff s' = buff s \<and> buff_index s' = buff_index s \<and> opened_file s' = opened_file s \<and>
     max_erased_addr s' = max_erased_addr s \<and> fat s' = fat s \<and> mode s' = mode s \<and>
     flash_status s' = flash_status s"
proof (induction offset p s rule: writeFIFO_pages.induct)
  case (1 offset p s)
  show ?case
  proof (cases "p < (buff_index s - offset) div 256 + 1")
    case False
    with "1.prems" show ?thesis
      by (simp add: writeFIFO_pages.simps)
  next
    case True
    define size2 where "size2 = page_size ((buff_index s - offset) - p * 256)"
    from True "1.prems" obtain bs where
      sl: "slice (unat FLASH_STORAGE_FIFO_BUFFER_SIZE) (buff s) (unat (p * 256 + offset))
             (unat size2) = Inr bs"
      and rec: "writeFIFO_pages offset (p + 1)
          (s\<lparr>flash := pageProgram (writeEnable (wait_idle (flash s))) (curr_addr s) bs,
             curr_addr := curr_addr s + size2\<rparr>) = Inr s'"
      by (subst (asm) writeFIFO_pages.simps) (auto simp: Let_def size2_def split: sum.splits)
    from "1.IH" [OF True refl refl sl [unfolded size2_def] rec [unfolded size2_def]]
    show ?thesis by simp
  qed
qed

lemma writeFIFO_frame:
  assumes "writeFIFO s = Inr (r, s')"
  shows "r = FLASH_STORAGE_OK \<and> buff_index s' = 0 \<and> buff s' = buff s \<and>
     opened_file s' = opened_file s \<and> fat s' = fat s \<and> mode s' = mode s"
  using assms
  by (auto simp: writeFIFO_def Let_def split: if_splits sum.splits prod.splits
      dest!: writeFIFO_pages_frame)

lemma writeFAT_frame:
  assumes "writeFAT s = Inr (r, s')"
  shows "\<exists>d. s' = s\<lparr>flash := d\<rparr>"
  using assms
  by (auto simp: writeFAT_def Let_def busy_def split: if_splits sum.splits prod.splits bool.splits)

section \<open>The decoder of the file table\<close>

text \<open>
  C5 says that the decoder rebuilds the end address of a record from its stored bytes as
  \<open>((b2<<8 | b3) << 8) + b4\<close>. The source writes \<open>(b2 << 8 | b3)<<8 + b4\<close>, where the sum is
  the shift count. For the five bytes that \<open>writeFAT\<close> stores for a file from \<open>0x1000\<close> to
  \<open>0x1001\<close> (one byte long) the loop of \<open>readFAT\<close> yields the end address \<open>0x2000\<close>, and the
  formula of the claim yields \<open>0x1001\<close>.
\<close>

theorem readFAT_files_shifts_by_offset_byte:
  "readFAT_files [0x00, 0x10, 0x00, 0x10, 0x01] 1 0 t =
     Inr (t\<lparr>files := (files t)(0 := \<lparr>start_addr = 0x1000, end_addr = 0x2000\<rparr>)\<rparr>)
   \<and> spec_end_addr 0x00 0x10 0x01 = 0x1001"
  by (simp add: readFAT_files.simps spec_end_addr_def)

section \<open>Closing twice\<close>

text \<open>
  C3 says that \<open>close\<close> returns the session to the mode None, so that a second \<open>close\<close> in
  a row returns Ok and changes nothing. On the fresh store, after \<open>newFile\<close>, the first
  \<open>close\<close> returns Ok and leaves the mode at Writing, with the open-file indicator 0. The
  second \<open>close\<close> therefore takes the Writing branch again: it returns Ok with the mode
  still Writing, and in between it has flushed the empty buffer, stored an end address
  through the index \<open>0 - 1\<close> and rewritten the table, which shows on the chip as two more
  erases of sector 0 and two more program commands.
\<close>

theorem close_twice_after_newFile:
  "(case newFile fresh_store of
      Inr (r0, s0) \<Rightarrow>
        (case close s0 of
           Inr (r1, s1) \<Rightarrow>
             (case close s1 of
                Inr (r2, s2) \<Rightarrow>
                  Some (r1, mode s1, opened_file s1, r2, mode s2,
                        drop (length (issued (flash s1))) (issued (flash s2)))
              | Inl f \<Rightarrow> None)
         | Inl f \<Rightarrow> None)
    | Inl f \<Rightarrow> None)
   = Some (FLASH_STORAGE_OK, FLASH_STORAGE_WRITE_MODE, 0, FLASH_STORAGE_OK,
           FLASH_STORAGE_WRITE_MODE,
           [WriteEnable, SectorErase 0, WriteEnable, PageProgram 0 0,
            WriteEnable, SectorErase 0, WriteEnable, PageProgram 0 13])"
  by (simp add: store_defs flash_defs fresh_store_def blank_chip_def
      cong: sum.case_cong_weak option.case_cong_weak)

section \<open>Reading\<close>

text \<open>
  C8: in Reading mode a \<open>read\<close> that asks for more than \<open>peek()\<close> returns exactly \<open>peek()\<close>
  bytes and moves the cursor to exactly \<open>end_addr\<close>; when the driver reports an error,
  \<open>read\<close> returns 0 and leaves the cursor; on success it moves the cursor by the count
  it returns. \<open>n\<close> is the requested length; the driver is asked for the clamped length.
\<close>

theorem read_clamps_to_end_addr:
  assumes "mode s = FLASH_STORAGE_READ_MODE"
  shows "case read s n of (k, bs, s') \<Rightarrow>
      (if fst (fastRead (flash s) (curr_addr s) (if peek s < n then peek s else n)) = W25Q64_OK
       then k = (if peek s < n then peek s else n) \<and> length bs = unat k
          \<and> curr_addr s' = curr_addr s + k
          \<and> (if peek s < n
              then k = peek s \<and> curr_addr s' = end_addr (files (fat s) (opened_file s - 1))
                 \<and> peek s' = 0
              else k = n)
       else k = 0 \<and> curr_addr s' = curr_addr s)"
  using assms
  by (simp add: peek_def read_def Let_def fastRead_def readData_def split: prod.splits)

theorem read_clamps_to_end_addr_witness:
  "mode reading_store = FLASH_STORAGE_READ_MODE
   \<and> peek reading_store = 3
   \<and> (case read reading_store 10 of
        (k, bs, s') \<Rightarrow> k = 3 \<and> bs = [0xFF, 0xFF, 0xFF] \<and> curr_addr s' = 0x1003 \<and> peek s' = 0)"
proof -
  have m: "mode reading_store = FLASH_STORAGE_READ_MODE"
    by (simp add: reading_store_def fresh_store_def)
  have p: "peek reading_store = 3"
    by (simp add: peek_def reading_store_def fresh_store_def)
  have f: "fastRead (flash reading_store) (curr_addr reading_store) 3
      = (W25Q64_OK, [0xFF, 0xFF, 0xFF])"
    by (simp add: reading_store_def fresh_store_def blank_chip_def fastRead_def readData_def
        upt_rec)
  have r: "read reading_store 10 = (3, [0xFF, 0xFF, 0xFF],
      reading_store\<lparr>flash_status := W25Q64_OK, curr_addr := 0x1003\<rparr>)"
    using f by (simp add: read_def reading_store_def fresh_store_def)
  from read_clamps_to_end_addr [OF m, of 10] m p r show ?thesis
    by (simp add: f)
qed

section \<open>Opening the file with index 0\<close>

text \<open>
  C9: \<open>openFile(0)\<close> is accepted whatever the table holds. Once the \<open>close\<close> that
  \<open>openFile\<close> starts with has returned, \<open>openFile(0)\<close> returns Ok, the mode is Reading, the
  open-file indicator is 0, so the slot \<open>0 - 1\<close> of the session is outside the table, and the
  cursor, \<open>peek\<close> and \<open>read\<close> take their addresses from that slot.
\<close>

theorem openFile_accepts_index_zero:
  assumes "close s = Inr (r, s0)"
  shows "\<exists>s'. openFile s 0 = Inr (FLASH_STORAGE_OK, s')
     \<and> mode s' = FLASH_STORAGE_READ_MODE \<and> opened_file s' = 0 \<and> fat s' = fat s0
     \<and> \<not> unat (opened_file s' - 1) < unat FLASH_STORAGE_MAX_FILE_NUMBER
     \<and> curr_addr s' = start_addr (files (fat s') (opened_file s' - 1))
     \<and> peek s' = end_addr (files (fat s') (opened_file s' - 1)) - curr_addr s'
     \<and> (\<forall>n. fst (read s' n) = (if peek s' < n then peek s' else n))"
  using assms
  by (simp add: openFile_def peek_def read_def Let_def flash_defs split: prod.splits)

theorem openFile_accepts_index_zero_witness:
  "close fresh_store = Inr (FLASH_STORAGE_OK, fresh_store)
   \<and> (\<exists>s'. openFile fresh_store 0 = Inr (FLASH_STORAGE_OK, s')
     \<and> mode s' = FLASH_STORAGE_READ_MODE \<and> opened_file s' = 0 \<and> fat s' = fat fresh_store
     \<and> \<not> unat (opened_file s' - 1) < unat FLASH_STORAGE_MAX_FILE_NUMBER
     \<and> curr_addr s' = start_addr (files (fat s') (opened_file s' - 1))
     \<and> peek s' = end_addr (files (fat s') (opened_file s' - 1)) - curr_addr s'
     \<and> (\<forall>n. fst (read s' n) = (if peek s' < n then peek s' else n)))"
proof -
  have c: "close fresh_store = Inr (FLASH_STORAGE_OK, fresh_store)"
    by (simp add: close_def fresh_store_def)
  from c openFile_accepts_index_zero [OF c] show ?thesis by blast
qed

section \<open>The flush at a cursor inside a page\<close>

text \<open>
  C2 says that no program call of the flush is longer than 256 bytes or crosses a page
  boundary, and that at a cursor inside a page the first chunk runs from the cursor to
  the next boundary. At the cursor 4196 (100 into its page) the source computes the
  length of the first chunk as \<open>(_curr_addr>>8+1<<8) - _curr_addr\<close>, which is
  \<open>(4196 >> 9 << 8) - 4196 = 2048 - 4196\<close>, as an \<open>unsigned int\<close> 4294965148, where 156 bytes
  lead to the boundary. \<open>writeFIFO\<close> hands the buffer and this length to \<open>pageProgram\<close>: a
  read of 4294965148 bytes from offset 0 of the 1024-byte buffer.
\<close>

theorem writeFIFO_unaligned_cursor:
  "writeFIFO unaligned_store = Inl (BufferOutOfRange 0 4294965148)"
  by (simp add: writeFIFO_def unaligned_store_def writing_store_def fresh_store_def
      blank_chip_def flash_defs Let_def)

section \<open>Arithmetic without wrap-around\<close>

lemma u_add: "unat a + unat b < 4294967296 \<Longrightarrow> unat (a + b :: uint) = unat a + unat b"
  by (simp add: unat_add_lem [THEN iffD1])

lemma u_mult: "unat a * unat b < 4294967296 \<Longrightarrow> unat (a * b :: uint) = unat a * unat b"
  by (simp add: unat_mult_lem [THEN iffD1])

lemma u_sub: "unat b \<le> unat a \<Longrightarrow> unat (a - b :: uint) = unat a - unat b"
  by (simp add: unat_sub word_le_nat_alt)

lemma sint_small:
  assumes "uint (n :: uint) < 2147483648"
  shows "sint n = uint n"
proof -
  have p: "(2 :: int) ^ 31 = 2147483648" by code_simp
  from assms have "uint n < 2 ^ 31" by (simp only: p)
  moreover have "- (2 ^ 31) \<le> uint n"
    using uint_nonnegative [of n] by (simp only: p)
  ultimately have "signed_take_bit 31 (uint n) = uint n"
    by (rule signed_take_bit_int_eq_self [rotated])
  then show ?thesis by (simp add: sint_uint)
qed

lemma page_size_small:
  assumes "unat (n :: uint) \<le> 256"
  shows "page_size n = n"
proof -
  from assms have "n \<le> 256" by (simp add: word_le_nat_alt)
  then have u: "uint n \<le> 256" by (simp add: word_le_def)
  then have "sint n = uint n" by (intro sint_small) linarith
  with u show ?thesis by (simp add: page_size_def word_sless_alt)
qed

lemma div256_small: "unat (n :: uint) < 256 \<Longrightarrow> n div 256 = 0"
  by (simp add: word_arith_nat_div)

section \<open>Writing the table\<close>

lemma length_writeFAT_buff: "length (writeFAT_buff t opened) = 8 + 5 * unat (file_count t)"
proof -
  have "length (concat (map (\<lambda>i. writeFAT_record (files t (of_nat i))) [0..<n])) = 5 * n" for n
    by (induction n) (simp_all add: writeFAT_record_def)
  then show ?thesis
    by (simp add: writeFAT_buff_def FLASH_STORAGE_IDENTIFICATION_STRING_def)
qed

lemma writeFAT_small:
  assumes idle: "busy_polls (flash s) = 0" and cnt: "unat (file_count (fat s)) \<le> 32"
  shows "writeFAT s = Inr (FLASH_STORAGE_OK,
     s\<lparr>flash := pageProgram (writeEnable (wait_idle (sectorErase (writeEnable (flash s)) 0))) 0
                 (writeFAT_buff (fat s) (opened_file s))\<rparr>)"
proof -
  define fat_size :: uint where "fat_size = 8 + file_count (fat s) * 5"
  define img where "img = writeFAT_buff (fat s) (opened_file s)"
  from cnt have "unat (file_count (fat s) * 5) = unat (file_count (fat s)) * 5"
    by (subst u_mult) simp_all
  with cnt have fs: "unat fat_size = 8 + 5 * unat (file_count (fat s))"
    unfolding fat_size_def by (subst u_add) simp_all
  with cnt have small: "unat fat_size \<le> 168" by simp
  have len: "length img = unat fat_size"
    by (simp add: img_def length_writeFAT_buff fs)
  from small have d0: "fat_size div 256 = 0"
    by (intro div256_small) simp
  from small have ps: "page_size fat_size = fat_size"
    by (intro page_size_small) simp
  have pages: "writeFAT_pages img fat_size 0 d = Inr (pageProgram (writeEnable (wait_idle d)) 0 img)" for d
    apply (subst writeFAT_pages.simps)
    apply (subst writeFAT_pages.simps)
    apply (simp add: d0 ps len slice_def Let_def)
    done
  have same: "(flash s)\<lparr>busy_polls := 0\<rparr> = flash s"
    using idle by simp
  show ?thesis
    using idle len
    by (simp add: writeFAT_def busy_def Let_def fat_size_def [symmetric] img_def [symmetric]
        FLASH_STORAGE_IDENTIFICATION_STRING_def pages same)
qed

section \<open>The commands on the chip\<close>

lemma erase_addrs_simps [simp]:
  "erase_addrs [] = []"
  "erase_addrs (xs @ ys) = erase_addrs xs @ erase_addrs ys"
  "erase_addrs (SectorErase a # cs) = a # erase_addrs cs"
  "erase_addrs (WriteEnable # cs) = erase_addrs cs"
  "erase_addrs (PageProgram a l # cs) = erase_addrs cs"
  by (simp_all add: erase_addrs_def)

lemma writeEnable_simps [simp]:
  "issued (writeEnable d) = issued d @ [WriteEnable]"
  "cells (writeEnable d) = cells d"
  "busy_polls (writeEnable d) = busy_polls d"
  "settle (writeEnable d) = settle d"
  by (simp_all add: writeEnable_def)

lemma sectorErase_simps [simp]:
  "issued (sectorErase d a) = issued d @ [SectorErase a]"
  "settle (sectorErase d a) = settle d"
  by (simp_all add: sectorErase_def)

lemma cells_sectorErase: "busy_polls d = 0 \<Longrightarrow> cells (sectorErase d a) = erased (cells d) a"
  by (simp add: sectorErase_def)

lemma pageProgram_simps [simp]:
  "issued (pageProgram d a bs) = issued d @ [PageProgram a (of_nat (length bs))]"
  "settle (pageProgram d a bs) = settle d"
  by (simp_all add: pageProgram_def)

lemma cells_pageProgram_outside:
  "length bs \<le> unat (x - a) \<Longrightarrow> cells (pageProgram d a bs) x = cells d x"
  by (simp add: pageProgram_def programmed_def)

section \<open>The flush of a full buffer\<close>

lemma writeFIFO_pages_full:
  assumes "buff_index s = 1024"
  shows "writeFIFO_pages 0 0 s = Inr
    (s\<lparr>flash := full_flush (flash s) (curr_addr s) (buff s),
       curr_addr := 1024 + curr_addr s\<rparr>)"
  using assms
  by (simp add: writeFIFO_pages.simps slice_def page_size_def FLASH_STORAGE_FIFO_BUFFER_SIZE_def
      word_sless_alt Let_def full_flush_def)

lemma programs_behind:
  fixes c x :: uint
  assumes "unat c + 1024 \<le> unat x"
  shows "256 \<le> unat (x - c)" "256 \<le> unat (x - (c + 256))" "256 \<le> unat (x - (512 + c))"
    "256 \<le> unat (x - (768 + c))"
  using assms by unat_arith+

lemma full_flush_erases:
  "n \<le> length (issued d) \<Longrightarrow>
     erase_addrs (drop n (issued (full_flush d c b))) = erase_addrs (drop n (issued d))"
  by (simp add: full_flush_def)

lemma full_flush_length: "length (issued d) \<le> length (issued (full_flush d c b))"
  by (simp add: full_flush_def)

lemma full_flush_cells:
  assumes "unat c + 1024 \<le> unat x"
  shows "cells (full_flush d c b) x = cells d x"
  using programs_behind [OF assms]
  by (simp add: full_flush_def cells_pageProgram_outside)

lemma writeFIFO_pages_empty:
  assumes "buff_index s = 0"
  shows "writeFIFO_pages 0 0 s = Inr
    (s\<lparr>flash := pageProgram (writeEnable (wait_idle (flash s))) (curr_addr s) []\<rparr>)"
  using assms
  by (simp add: writeFIFO_pages.simps slice_def page_size_def FLASH_STORAGE_FIFO_BUFFER_SIZE_def
      word_sless_alt Let_def del: wait_idle_eq)

lemma dvd_word_mod:
  assumes "1024 dvd unat (c :: uint)"
  shows "c mod 256 = 0"
proof -
  from assms have "256 dvd unat c" by (rule dvd_trans [rotated]) simp
  then have "unat (c mod 256) = 0" by (simp add: unat_mod)
  then show ?thesis by (simp add: unat_eq_zero)
qed

lemma same_sector:
  assumes "4096 dvd unat (m :: uint)" and "unat m \<le> unat x" and "unat x < unat m + 4096"
  shows "drop_bit 12 x = drop_bit 12 m"
proof -
  from assms obtain k where k: "unat m = 4096 * k" by (auto elim: dvdE)
  with assms(2,3) have "unat x div 4096 = k" by (simp add: div_nat_eqI mult.commute)
  with k have "unat (drop_bit 12 x) = unat (drop_bit 12 m)"
    by (simp add: drop_bit_eq_div unat_div)
  then show ?thesis by (simp add: word_unat_eq_iff)
qed

lemma writeFIFO_full:
  assumes inv: "session_inv base s" and full: "buff_index s = 1024"
    and room: "unat (max_erased_addr s) + 4096 < 4294967296"
  shows "\<exists>s'. writeFIFO s = Inr (FLASH_STORAGE_OK, s') \<and> session_inv base s'
     \<and> buff_index s' = 0 \<and> unat (curr_addr s') = unat (curr_addr s) + 1024
     \<and> buff s' = buff s"
proof -
  let ?c = "curr_addr s" and ?m = "max_erased_addr s"
  from inv have md: "mode s = FLASH_STORAGE_WRITE_MODE"
    and cd: "1024 dvd unat ?c" and mdv: "4096 dvd unat ?m"
    and lt: "unat ?c < unat ?m" and le: "unat ?m \<le> unat ?c + 4096"
    and bl: "base \<le> length (issued (flash s))"
    and below: "\<forall>a \<in> set (erased_since base s). unat a < unat ?m"
    and once: "count_list (erased_since base s) (?m - 4096) = 1"
    and ff: "\<forall>x. unat ?c \<le> unat x \<and> unat x < unat ?m \<longrightarrow> cells (flash s) x = 0xFF"
    by (simp_all add: session_inv_def)
  have al: "?c mod 256 = 0" using cd by (rule dvd_word_mod)
  from lt room have c1: "unat (1024 + ?c) = unat ?c + 1024"
    by (subst u_add) simp_all
  have gap: "unat ?c + 1024 \<le> unat ?m"
  proof -
    from mdv have "1024 dvd unat ?m" by (rule dvd_trans [rotated]) simp
    with cd lt show ?thesis by (auto elim!: dvdE)
  qed
  show ?thesis
  proof (cases "?m \<le> ?c + buff_index s")
    case False
    with full c1 have far: "unat ?c + 1024 < unat ?m"
      by (simp add: word_le_nat_alt add.commute)
    define s' where "s' = s\<lparr>flash := full_flush (flash s) ?c (buff s),
       curr_addr := 1024 + ?c, buff_index := 0\<rparr>"
    have w: "writeFIFO s = Inr (FLASH_STORAGE_OK, s')"
      using False al full writeFIFO_pages_full [OF full]
      by (simp add: writeFIFO_def s'_def Let_def)
    have es: "erased_since base s' = erased_since base s"
      using bl by (simp add: erased_since_def s'_def full_flush_erases)
    have cells': "cells (flash s') x = 0xFF" if "unat (1024 + ?c) \<le> unat x" "unat x < unat ?m" for x
      using that c1 ff by (simp add: s'_def full_flush_cells)
    have len: "base \<le> length (issued (flash s'))"
      using bl full_flush_length [of "flash s" ?c "buff s"] by (simp add: s'_def)
    have "session_inv base s'"
      unfolding session_inv_def
      using md cd mdv far le below once c1 cells' len
      by (simp add: es) (simp add: s'_def)
    moreover have "buff_index s' = 0" "unat (curr_addr s') = unat ?c + 1024" "buff s' = buff s"
      using c1 by (simp_all add: s'_def)
    ultimately show ?thesis using w by blast
  next
    case True
    with full c1 gap have eq: "unat ?m = unat ?c + 1024"
      by (simp add: word_le_nat_alt add.commute)
    from room have m1: "unat (?m + 4096) = unat ?m + 4096"
      by (subst u_add) simp_all
    define d1 where "d1 = sectorErase (writeEnable (wait_idle (flash s))) ?m"
    define s' where "s' = s\<lparr>flash := full_flush d1 ?c (buff s),
       max_erased_addr := ?m + 4096, curr_addr := 1024 + ?c, buff_index := 0\<rparr>"
    have w: "writeFIFO s = Inr (FLASH_STORAGE_OK, s')"
      using True al full
        writeFIFO_pages_full [of "s\<lparr>flash := d1, max_erased_addr := ?m + 4096\<rparr>"]
      by (simp add: writeFIFO_def s'_def d1_def Let_def)
    have es: "erased_since base s' = erased_since base s @ [?m]"
      using bl by (simp add: erased_since_def s'_def full_flush_erases d1_def)
    have len: "base \<le> length (issued (flash s'))"
      using bl full_flush_length [of d1 ?c "buff s"] by (simp add: s'_def d1_def)
    have cells': "cells (flash s') x = 0xFF"
      if "unat (1024 + ?c) \<le> unat x" "unat x < unat (?m + 4096)" for x
    proof -
      from that c1 m1 eq have x: "unat ?m \<le> unat x" "unat x < unat ?m + 4096" by simp_all
      with eq have "cells (flash s') x = cells d1 x"
        by (simp add: s'_def full_flush_cells)
      also have "\<dots> = erased (cells (flash s)) ?m x"
        by (simp add: d1_def cells_sectorErase)
      also have "\<dots> = 0xFF"
        using same_sector [OF mdv x] by (simp add: erased_def)
      finally show ?thesis .
    qed
    from below have fresh: "count_list (erased_since base s) ?m = 0"
      by (auto simp: count_list_0_iff)
    have mdv': "4096 dvd unat (?m + 4096)" using mdv m1 by simp
    have cd': "1024 dvd unat (1024 + ?c)" using cd c1 by simp
    have "session_inv base s'"
      unfolding session_inv_def
      using md cd' mdv' eq below fresh c1 m1 cells' len
      by (simp add: es) (auto simp: s'_def)
    moreover have "buff_index s' = 0" "unat (curr_addr s') = unat ?c + 1024" "buff s' = buff s"
      using c1 by (simp_all add: s'_def)
    ultimately show ?thesis using w by blast
  qed
qed

section \<open>The flush at any fill level\<close>

lemma session_inv_gap:
  assumes "session_inv base s"
  shows "unat (curr_addr s) + 1024 \<le> unat (max_erased_addr s)"
proof -
  from assms have cd: "1024 dvd unat (curr_addr s)" and mdv: "4096 dvd unat (max_erased_addr s)"
    and lt: "unat (curr_addr s) < unat (max_erased_addr s)"
    by (simp_all add: session_inv_def)
  from mdv have "1024 dvd unat (max_erased_addr s)" by (rule dvd_trans [rotated]) simp
  with cd lt show ?thesis by (auto elim!: dvdE)
qed

lemma page_size_large:
  assumes "256 \<le> unat (n :: uint)" and "unat n \<le> 1024"
  shows "page_size n = 256"
proof -
  from assms have "256 \<le> n" "n \<le> 1024" by (simp_all add: word_le_nat_alt)
  then have u: "256 \<le> uint n" "uint n \<le> 1024" by (simp_all add: word_le_def)
  then have "sint n = uint n" by (intro sint_small) linarith
  moreover have "n = 256" if "uint n = 256" using that by (simp add: word_uint_eq_iff)
  ultimately show ?thesis using u by (auto simp: page_size_def word_sless_alt)
qed

lemma aligned_page: "(c :: uint) mod 256 = 0 \<Longrightarrow> c AND 0xFF = 0"
proof -
  assume a: "c mod 256 = 0"
  have "c AND 0xFF = take_bit 8 c" by (simp add: take_bit_eq_mask mask_eq_exp_minus_1)
  with a show ?thesis by (simp add: take_bit_eq_mod)
qed

lemma cells_pageProgram:
  assumes "busy_polls d = 0" and "a mod 256 = 0" and "length bs \<le> 256"
  shows "cells (pageProgram d a bs) = programmed (cells d) a bs"
  using assms by (simp add: pageProgram_def aligned_page)

lemma behind_page:
  "unat ((y :: uint) - 256) = (if unat y < 256 then unat y + 4294967040 else unat y - 256)"
  by (simp add: unat_sub_if_size word_size)

lemma next_page:
  assumes "(c :: uint) mod 256 = 0"
  shows "(c + 256) mod 256 = 0"
proof -
  have "unat ((c + 256) mod 256) = ((unat c + 256) mod 4294967296) mod 256"
    by (simp add: unat_mod unat_word_ariths)
  also have "\<dots> = (unat c + 256) mod 256" by (rule mod_mod_cancel) simp
  also have "\<dots> = unat (c mod 256)" by (simp add: unat_mod)
  finally show ?thesis using assms by (simp add: unat_eq_zero)
qed

lemma writeFIFO_pages_run:
  assumes bi: "unat (buff_index s) \<le> 1024"
    and p: "unat p * 256 \<le> unat (buff_index s)"
    and al: "curr_addr s mod 256 = 0"
    and len: "length (buff s) = 1024"
  shows "\<exists>d cmds. writeFIFO_pages 0 p s
        = Inr (s\<lparr>flash := d, curr_addr := curr_addr s + (buff_index s - p * 256)\<rparr>)
     \<and> issued d = issued (flash s) @ cmds \<and> erase_addrs cmds = []
     \<and> (\<forall>x. cells d x =
           (if unat (x - curr_addr s) < unat (buff_index s) - unat p * 256
            then cells (flash s) x AND buff s ! (unat p * 256 + unat (x - curr_addr s))
            else cells (flash s) x))"
  using assms
proof (induction "unat (buff_index s) - unat p * 256" arbitrary: p s rule: less_induct)
  case less
  let ?bi = "buff_index s" and ?c = "curr_addr s"
  note bi = less.prems(1) and p = less.prems(2) and al = less.prems(3) and len = less.prems(4)
  from p bi have p4: "unat p \<le> 4" by simp
  have up: "unat (p * 256) = unat p * 256" using p4 by (subst u_mult) simp_all
  have ur: "unat (?bi - p * 256) = unat ?bi - unat p * 256"
    using p up by (subst u_sub) simp_all
  have ud: "unat (?bi div 256 + 1) = unat ?bi div 256 + 1"
    using bi by (subst u_add) (simp_all add: unat_div)
  from p have "unat p \<le> unat ?bi div 256" by (simp add: less_eq_div_iff_mult_less_eq)
  then have go: "p < ?bi div 256 + 1" by (simp add: word_less_nat_alt ud)
  have p1: "unat (p + 1) = unat p + 1" using p4 by (subst u_add) simp_all
  define d1 where "d1 = writeEnable (wait_idle (flash s))"
  have idle: "busy_polls d1 = 0" and c1: "cells d1 = cells (flash s)"
    by (simp_all add: d1_def)
  show ?case
  proof (cases "256 \<le> unat ?bi - unat p * 256")
    case True
    have ps: "page_size (?bi - p * 256) = 256"
      by (rule page_size_large) (use True ur bi in simp_all)
    define bs where "bs = take 256 (drop (unat p * 256) (buff s))"
    have lbs: "length bs = 256" using len True bi by (simp add: bs_def)
    define s1 where "s1 = s\<lparr>flash := pageProgram d1 ?c bs, curr_addr := ?c + 256\<rparr>"
    from True bi have fit: "unat p * 256 + 256 \<le> 1024" by simp
    have step: "writeFIFO_pages 0 p s = writeFIFO_pages 0 (p + 1) s1"
      using go ps up fit
      by (subst writeFIFO_pages.simps)
        (simp add: Let_def slice_def FLASH_STORAGE_FIFO_BUFFER_SIZE_def s1_def d1_def bs_def)
    have dec: "unat (buff_index s1) - unat (p + 1) * 256 < unat ?bi - unat p * 256"
      using True by (simp add: s1_def p1)
    have h: "unat (buff_index s1) \<le> 1024" "unat (p + 1) * 256 \<le> unat (buff_index s1)"
      "curr_addr s1 mod 256 = 0" "length (buff s1) = 1024"
      using bi True next_page [OF al] len by (simp_all add: s1_def p1)
    from less.hyps [OF dec h] obtain d cmds where
      run: "writeFIFO_pages 0 (p + 1) s1
        = Inr (s1\<lparr>flash := d, curr_addr := curr_addr s1 + (buff_index s1 - (p + 1) * 256)\<rparr>)"
      and iss: "issued d = issued (flash s1) @ cmds" and er: "erase_addrs cmds = []"
      and ce: "\<forall>x. cells d x =
           (if unat (x - curr_addr s1) < unat (buff_index s1) - unat (p + 1) * 256
            then cells (flash s1) x AND buff s1 ! (unat (p + 1) * 256 + unat (x - curr_addr s1))
            else cells (flash s1) x)"
      by blast
    have e1: "s1\<lparr>flash := d, curr_addr := curr_addr s1 + (buff_index s1 - (p + 1) * 256)\<rparr>
        = s\<lparr>flash := d, curr_addr := ?c + (?bi - p * 256)\<rparr>"
      by (simp add: s1_def algebra_simps)
    have pc: "cells (flash s1) = programmed (cells (flash s)) ?c bs"
      using cells_pageProgram [OF idle al, of bs] lbs by (simp add: s1_def c1)
    have cells: "cells d x =
           (if unat (x - ?c) < unat ?bi - unat p * 256
            then cells (flash s) x AND buff s ! (unat p * 256 + unat (x - ?c))
            else cells (flash s) x)" for x
    proof -
      have sh: "x - (?c + 256) = x - ?c - 256" by simp
      show ?thesis
      proof (cases "unat (x - ?c) < 256")
        case near: True
        from bi have "\<not> unat (x - ?c) + 4294967040 < unat ?bi - unat (p + 1) * 256"
          by simp
        with near have "\<not> unat (x - curr_addr s1) < unat (buff_index s1) - unat (p + 1) * 256"
          by (simp add: s1_def sh behind_page)
        with ce [rule_format, of x] have "cells d x = cells (flash s1) x"
          by (simp only: if_False)
        also have "\<dots> = cells (flash s) x AND bs ! unat (x - ?c)"
          using near lbs by (simp add: pc programmed_def)
        also have "bs ! unat (x - ?c) = buff s ! (unat p * 256 + unat (x - ?c))"
          using near len True bi by (simp add: bs_def)
        finally show ?thesis using near True by simp
      next
        case far: False
        then have "cells (flash s1) x = cells (flash s) x"
          using lbs by (simp add: pc programmed_def)
        moreover from far have "unat (p + 1) * 256 + unat (x - curr_addr s1)
            = unat p * 256 + unat (x - ?c)"
          by (simp add: s1_def sh behind_page p1)
        moreover from far True
        have "unat (x - curr_addr s1) < unat (buff_index s1) - unat (p + 1) * 256
            \<longleftrightarrow> unat (x - ?c) < unat ?bi - unat p * 256"
          by (auto simp: s1_def sh behind_page p1)
        moreover have "buff s1 = buff s" by (simp add: s1_def)
        ultimately show ?thesis using ce [rule_format, of x] by simp
      qed
    qed
    have iss': "issued d
        = issued (flash s) @ ([WriteEnable, PageProgram ?c (of_nat (length bs))] @ cmds)"
      by (simp add: iss s1_def d1_def)
    have er': "erase_addrs ([WriteEnable, PageProgram ?c (of_nat (length bs))] @ cmds) = []"
      using er by simp
    have res: "writeFIFO_pages 0 p s
        = Inr (s\<lparr>flash := d, curr_addr := ?c + (?bi - p * 256)\<rparr>)"
      by (simp only: step run e1)
    show ?thesis
      apply (rule exI [of _ d])
      apply (rule exI [of _ "[WriteEnable, PageProgram ?c (of_nat (length bs))] @ cmds"])
      apply (intro conjI allI)
         apply (rule res)
        apply (rule iss')
       apply (rule er')
      apply (rule cells)
      done
  next
    case False
    then have small: "unat ?bi - unat p * 256 < 256" by simp
    have ps: "page_size (?bi - p * 256) = ?bi - p * 256"
      by (rule page_size_small) (use small ur in simp)
    define bs where "bs = take (unat ?bi - unat p * 256) (drop (unat p * 256) (buff s))"
    have lbs: "length bs = unat ?bi - unat p * 256" using len bi p by (simp add: bs_def)
    define s1 where "s1 = s\<lparr>flash := pageProgram d1 ?c bs, curr_addr := ?c + (?bi - p * 256)\<rparr>"
    from bi p have fit: "unat p * 256 + (unat ?bi - unat p * 256) \<le> 1024" by simp
    have step: "writeFIFO_pages 0 p s = writeFIFO_pages 0 (p + 1) s1"
      using go ps up ur fit
      by (subst writeFIFO_pages.simps)
        (simp add: Let_def slice_def FLASH_STORAGE_FIFO_BUFFER_SIZE_def s1_def d1_def bs_def)
    from small p have "unat ?bi div 256 = unat p"
      by (intro div_nat_eqI) simp_all
    then have stop: "\<not> p + 1 < buff_index s1 div 256 + 1"
      by (simp add: word_less_nat_alt ud p1 s1_def)
    have fin: "writeFIFO_pages 0 (p + 1) s1 = Inr s1"
      using stop by (subst writeFIFO_pages.simps) simp
    have pc: "cells (flash s1) = programmed (cells (flash s)) ?c bs"
      using cells_pageProgram [OF idle al, of bs] lbs small by (simp add: s1_def c1)
    have cells: "cells (flash s1) x =
           (if unat (x - ?c) < unat ?bi - unat p * 256
            then cells (flash s) x AND buff s ! (unat p * 256 + unat (x - ?c))
            else cells (flash s) x)" for x
      using lbs len bi p by (simp add: pc programmed_def bs_def)
    have iss': "issued (flash s1)
        = issued (flash s) @ [WriteEnable, PageProgram ?c (of_nat (length bs))]"
      by (simp add: s1_def d1_def)
    have er': "erase_addrs [WriteEnable, PageProgram ?c (of_nat (length bs))] = []"
      by simp
    have "s1 = s\<lparr>flash := flash s1, curr_addr := ?c + (?bi - p * 256)\<rparr>"
      by (simp add: s1_def)
    then have res: "writeFIFO_pages 0 p s
        = Inr (s\<lparr>flash := flash s1, curr_addr := ?c + (?bi - p * 256)\<rparr>)"
      by (simp only: step fin)
    show ?thesis
      apply (rule exI [of _ "flash s1"])
      apply (rule exI [of _ "[WriteEnable, PageProgram ?c (of_nat (length bs))]"])
      apply (intro conjI allI)
         apply (rule res)
        apply (rule iss')
       apply (rule er')
      apply (rule cells)
      done
  qed
qed

lemma below_sector:
  assumes "4096 dvd unat (m :: uint)" and "unat x < unat m"
  shows "drop_bit 12 x \<noteq> drop_bit 12 m"
proof
  assume "drop_bit 12 x = drop_bit 12 m"
  then have "unat (drop_bit 12 x) = unat (drop_bit 12 m)" by simp
  then have e: "unat x div 4096 = unat m div 4096" by (simp add: drop_bit_eq_div unat_div)
  from assms(1) obtain k where k: "unat m = 4096 * k" by (auto elim: dvdE)
  with assms(2) have "unat x div 4096 < k" by (simp add: div_less_iff_less_mult mult.commute)
  with e k show False by simp
qed

lemma unat_small: "k < 4294967296 \<Longrightarrow> unat (of_nat k :: uint) = k"
  by (rule of_nat_inverse [OF refl]) simp

lemma blank_and: "(0xFF :: byte) AND b = b"
proof -
  have "(255 :: byte) = - 1" by simp
  then show ?thesis by (simp only: and.left_neutral)
qed

lemma writeFIFO_session:
  assumes inv: "session_inv base s" and len: "length (buff s) = 1024"
    and room: "unat (max_erased_addr s) + 4096 < 4294967296"
  shows "\<exists>s'. writeFIFO s = Inr (FLASH_STORAGE_OK, s')
     \<and> buff_index s' = 0 \<and> buff s' = buff s \<and> mode s' = mode s
     \<and> opened_file s' = opened_file s \<and> fat s' = fat s
     \<and> unat (curr_addr s') = unat (curr_addr s) + unat (buff_index s)
     \<and> (\<forall>k. k < unat (buff_index s) \<longrightarrow>
            cells (flash s') (curr_addr s + of_nat k) = buff s ! k)
     \<and> (\<forall>x. unat x < unat (curr_addr s) \<longrightarrow> cells (flash s') x = cells (flash s) x)"
proof -
  let ?c = "curr_addr s" and ?m = "max_erased_addr s" and ?bi = "buff_index s"
  from inv have bi: "unat ?bi \<le> 1024"
    and cd: "1024 dvd unat ?c" and mdv: "4096 dvd unat ?m"
    and lt: "unat ?c < unat ?m"
    and ff: "\<forall>x. unat ?c \<le> unat x \<and> unat x < unat ?m \<longrightarrow> cells (flash s) x = 0xFF"
    by (simp_all add: session_inv_def)
  have al: "?c mod 256 = 0" using cd by (rule dvd_word_mod)
  note gap = session_inv_gap [OF inv]
  from lt room bi have cb: "unat (?c + ?bi) = unat ?c + unat ?bi"
    by (subst u_add) simp_all
  define s1 where "s1 = (if ?m \<le> ?c + ?bi
      then s\<lparr>flash := sectorErase (writeEnable (wait_idle (flash s))) ?m,
             max_erased_addr := ?m + 4096\<rparr>
      else s)"
  have f1: "buff_index s1 = ?bi" "curr_addr s1 = ?c" "buff s1 = buff s" "mode s1 = mode s"
    "opened_file s1 = opened_file s" "fat s1 = fat s"
    by (simp_all add: s1_def)
  have c1: "cells (flash s1) x = cells (flash s) x" if "unat x < unat ?m" for x
    using below_sector [OF mdv that] by (simp add: s1_def cells_sectorErase erased_def)
  have h: "unat (buff_index s1) \<le> 1024" "unat (0 :: uint) * 256 \<le> unat (buff_index s1)"
    "curr_addr s1 mod 256 = 0" "length (buff s1) = 1024"
    using bi al len by (simp_all add: f1)
  from writeFIFO_pages_run [OF h] obtain d where
    run: "writeFIFO_pages 0 0 s1 = Inr (s1\<lparr>flash := d, curr_addr := ?c + ?bi\<rparr>)"
    and ce: "\<forall>x. cells d x =
           (if unat (x - ?c) < unat ?bi
            then cells (flash s1) x AND buff s ! unat (x - ?c)
            else cells (flash s1) x)"
    by (auto simp: f1)
  define s' where "s' = s1\<lparr>flash := d, curr_addr := ?c + ?bi, buff_index := 0\<rparr>"
  have w: "writeFIFO s = Inr (FLASH_STORAGE_OK, s')"
    using al run by (simp add: writeFIFO_def Let_def s1_def [symmetric] f1 s'_def)
  have prog: "cells (flash s') (?c + of_nat k) = buff s ! k" if k: "k < unat ?bi" for k
  proof -
    from k bi have uk: "unat (of_nat k :: uint) = k" by (intro unat_small) simp
    from k bi lt room have ux: "unat (?c + of_nat k) = unat ?c + k"
      by (subst u_add) (simp_all add: uk)
    with k bi gap have "unat (?c + of_nat k) < unat ?m" by simp
    from c1 [OF this] ff ux k bi gap have "cells (flash s1) (?c + of_nat k) = 0xFF" by simp
    with ce [rule_format, of "?c + of_nat k"] k show ?thesis
      by (simp add: s'_def uk blank_and)
  qed
  have keep: "cells (flash s') x = cells (flash s) x" if x: "unat x < unat ?c" for x
  proof -
    from x have "unat (x - ?c) = unat x + 4294967296 - unat ?c"
      by (simp add: unat_sub_if_size word_size)
    with lt room bi have "\<not> unat (x - ?c) < unat ?bi"
      using unsigned_less [of ?c] by simp
    with ce [rule_format, of x] have "cells (flash s') x = cells (flash s1) x"
      by (simp add: s'_def)
    also from x lt have "\<dots> = cells (flash s) x" by (intro c1) simp
    finally show ?thesis .
  qed
  have "buff_index s' = 0" "buff s' = buff s" "mode s' = mode s"
    "opened_file s' = opened_file s" "fat s' = fat s"
    "unat (curr_addr s') = unat ?c + unat ?bi"
    by (simp_all add: s'_def f1 cb)
  with w prog keep show ?thesis by blast
qed

section \<open>The bytes of the open file\<close>

lemma unat_bound: "unat (x :: uint) < 4294967296"
  using unsigned_less [of x] by simp

lemma file_inv_append:
  assumes fi: "file_inv start D s" and fit: "unat (buff_index s) + length xs \<le> 1024"
    and i: "unat i = unat (buff_index s) + length xs"
  shows "file_inv start (D @ xs)
     (s\<lparr>buff := take (unat (buff_index s)) (buff s) @ xs
               @ drop (unat (buff_index s) + length xs) (buff s),
        buff_index := i\<rparr>)"
proof -
  let ?n = "unat (curr_addr s) - unat start" and ?bi = "unat (buff_index s)"
  from fi have len: "length (buff s) = 1024" and le: "unat start \<le> unat (curr_addr s)"
    and ld: "length D = ?n + ?bi"
    and ce: "\<forall>k. k < ?n \<longrightarrow> cells (flash s) (start + of_nat k) = D ! k"
    and bf: "take ?bi (buff s) = drop ?n D"
    by (simp_all add: file_inv_def)
  from fit len have lt: "length (take ?bi (buff s)) = ?bi" by simp
  have "take (unat i) (take ?bi (buff s) @ xs @ drop (?bi + length xs) (buff s))
      = take ?bi (buff s) @ xs"
    using lt by (simp add: i)
  also have "\<dots> = drop ?n (D @ xs)" using ld by (simp add: bf)
  finally have b: "take (unat i) (take ?bi (buff s) @ xs @ drop (?bi + length xs) (buff s))
      = drop ?n (D @ xs)" .
  have c: "cells (flash s) (start + of_nat k) = (D @ xs) ! k" if "k < ?n" for k
  proof -
    from that ld have "k < length D" by simp
    then have "(D @ xs) ! k = D ! k" by (simp add: nth_append)
    with ce that show ?thesis by simp
  qed
  show ?thesis
    unfolding file_inv_def using len fit le ld b c by (simp add: i)
qed

lemma flush_file:
  assumes inv: "session_inv base s" and fi: "file_inv start D s"
    and room: "unat (max_erased_addr s) + 4096 < 4294967296"
  shows "\<exists>s'. writeFIFO s = Inr (FLASH_STORAGE_OK, s') \<and> file_inv start D s'
     \<and> buff_index s' = 0 \<and> mode s' = mode s \<and> opened_file s' = opened_file s
     \<and> fat s' = fat s \<and> unat (curr_addr s') = unat start + length D"
proof -
  let ?n = "unat (curr_addr s) - unat start" and ?bi = "unat (buff_index s)"
  from fi have len: "length (buff s) = 1024" and le: "unat start \<le> unat (curr_addr s)"
    and ld: "length D = ?n + ?bi"
    and ce: "\<forall>k. k < ?n \<longrightarrow> cells (flash s) (start + of_nat k) = D ! k"
    and bf: "take ?bi (buff s) = drop ?n D"
    by (simp_all add: file_inv_def)
  from inv have bi: "?bi \<le> 1024" by (simp add: session_inv_def)
  from writeFIFO_session [OF inv len room] obtain s' where
    w: "writeFIFO s = Inr (FLASH_STORAGE_OK, s')"
    and f: "buff_index s' = 0" "buff s' = buff s" "mode s' = mode s"
      "opened_file s' = opened_file s" "fat s' = fat s"
    and cu: "unat (curr_addr s') = unat (curr_addr s) + ?bi"
    and prog: "\<forall>k. k < ?bi \<longrightarrow> cells (flash s') (curr_addr s + of_nat k) = buff s ! k"
    and keep: "\<forall>x. unat x < unat (curr_addr s) \<longrightarrow> cells (flash s') x = cells (flash s) x"
    by blast
  have n32: "?n < 4294967296" using unat_bound [of "curr_addr s"] by simp
  have whole: "start + of_nat ?n = curr_addr s"
    using le by (simp add: of_nat_diff)
  have cells: "cells (flash s') (start + of_nat k) = D ! k" if k: "k < ?n + ?bi" for k
  proof (cases "k < ?n")
    case True
    with le n32 have "unat (start + of_nat k) = unat start + k"
      using unat_bound [of "curr_addr s"] by (subst u_add) (simp_all add: unat_small)
    with True have "unat (start + of_nat k) < unat (curr_addr s)" by simp
    with keep ce True show ?thesis by simp
  next
    case False
    define j where "j = k - ?n"
    from False k have j: "j < ?bi" and kj: "k = ?n + j" by (simp_all add: j_def)
    have "start + of_nat k = (start + of_nat ?n) + of_nat j"
      unfolding kj by (simp only: of_nat_add add.assoc)
    then have "start + of_nat k = curr_addr s + of_nat j" by (simp only: whole)
    with prog j have "cells (flash s') (start + of_nat k) = buff s ! j" by simp
    also from j have "\<dots> = take ?bi (buff s) ! j" by simp
    also have "\<dots> = D ! k" using ld j by (simp add: bf kj)
    finally show ?thesis .
  qed
  have "file_inv start D s'"
    unfolding file_inv_def using len le ld cells by (simp add: f cu)
  moreover from le ld have "unat (curr_addr s') = unat start + length D" by (simp add: cu)
  ultimately show ?thesis using w f by blast
qed

section \<open>Write calls in a session\<close>

lemma session_inv_buffer:
  assumes "session_inv base s" and "unat i \<le> 1024"
  shows "session_inv base (s\<lparr>buff := b, buff_index := i\<rparr>)"
  using assms by (simp add: session_inv_def erased_since_def)

lemma unat_length:
  assumes "length (data :: byte list) < 4294967296"
  shows "unat (of_nat (length data) :: uint) = length data"
  by (rule of_nat_inverse [OF refl]) (use assms in simp)

lemma write_loop_total:
  assumes "session_inv base s" and "buff_index s = 0"
    and "length data + 1024 < 4294967296"
    and "unat index \<le> length data"
    and "unat (curr_addr s) + (length data - unat index) + 8192 < 4294967296"
  shows "\<exists>index' s'. write_loop data index s = Some (Inr (index', s'))
     \<and> session_inv base s' \<and> buff_index s' = 0
     \<and> unat index' \<le> length data \<and> length data - unat index' \<le> 1024
     \<and> unat (curr_addr s') + (length data - unat index')
         \<le> unat (curr_addr s) + (length data - unat index)
     \<and> fat s' = fat s \<and> opened_file s' = opened_file s
     \<and> (\<forall>start D. file_inv start (D @ take (unat index) data) s
            \<longrightarrow> file_inv start (D @ take (unat index') data) s')"
  using assms
proof (induction "length data - unat index" arbitrary: index s rule: less_induct)
  case less
  note inv = less.prems(1) and b0 = less.prems(2) and small = less.prems(3)
    and ile = less.prems(4) and room = less.prems(5)
  from small have ul: "unat (of_nat (length data) :: uint) = length data"
    by (intro unat_length) simp
  from ile small have i1: "unat (index + 1024) = unat index + 1024"
    by (subst u_add) simp_all
  show ?case
  proof (cases "index + FLASH_STORAGE_FIFO_BUFFER_SIZE < of_nat (length data)")
    case False
    then have "length data \<le> unat index + 1024"
      by (simp add: word_less_nat_alt ul i1 FLASH_STORAGE_FIFO_BUFFER_SIZE_def)
    with False inv b0 ile show ?thesis
      by (subst write_loop.simps) simp
  next
    case True
    then have more: "unat index + 1024 < length data"
      by (simp add: word_less_nat_alt ul i1 FLASH_STORAGE_FIFO_BUFFER_SIZE_def)
    define chunk where "chunk = take 1024 (drop (unat index) data)"
    from more have cl: "length chunk = 1024" by (simp add: chunk_def)
    define b where "b = take 0 (buff s) @ chunk @ drop (0 + length chunk) (buff s)"
    have mc: "memcpy (unat FLASH_STORAGE_FIFO_BUFFER_SIZE) (buff s) 0
        (take (unat FLASH_STORAGE_FIFO_BUFFER_SIZE) (drop (unat index) data)) = Inr b"
      using cl by (simp add: memcpy_def FLASH_STORAGE_FIFO_BUFFER_SIZE_def chunk_def b_def)
    define sb where "sb = s\<lparr>buff := b, buff_index := FLASH_STORAGE_FIFO_BUFFER_SIZE\<rparr>"
    have invb: "session_inv base sb" unfolding sb_def
      by (rule session_inv_buffer [OF inv]) (simp add: FLASH_STORAGE_FIFO_BUFFER_SIZE_def)
    have fullb: "buff_index sb = 1024"
      by (simp add: sb_def FLASH_STORAGE_FIFO_BUFFER_SIZE_def)
    from inv have "unat (max_erased_addr s) \<le> unat (curr_addr s) + 4096"
      by (simp add: session_inv_def)
    with room have roomb: "unat (max_erased_addr sb) + 4096 < 4294967296"
      by (simp add: sb_def)
    from writeFIFO_full [OF invb fullb roomb] obtain s1 where
      w: "writeFIFO sb = Inr (FLASH_STORAGE_OK, s1)" and inv1: "session_inv base s1"
      and b1: "buff_index s1 = 0" and c1: "unat (curr_addr s1) = unat (curr_addr s) + 1024"
      by (auto simp: sb_def)
    have fr1: "fat s1 = fat s" "opened_file s1 = opened_file s"
      using writeFIFO_frame [OF w] by (simp_all add: sb_def)
    have fi1: "file_inv start (D @ take (unat (index + 1024)) data) s1"
      if fi: "file_inv start (D @ take (unat index) data) s" for start D
    proof -
      have "file_inv start ((D @ take (unat index) data) @ chunk) sb"
        using file_inv_append [OF fi, of chunk FLASH_STORAGE_FIFO_BUFFER_SIZE] cl b0
        by (simp add: sb_def b_def FLASH_STORAGE_FIFO_BUFFER_SIZE_def)
      moreover have "(D @ take (unat index) data) @ chunk = D @ take (unat (index + 1024)) data"
        by (simp add: i1 chunk_def take_add add.commute)
      ultimately have "file_inv start (D @ take (unat (index + 1024)) data) sb" by simp
      from flush_file [OF invb this roomb] w show ?thesis by auto
    qed
    have dec: "length data - unat (index + 1024) < length data - unat index"
      using more i1 by simp
    have ile1: "unat (index + 1024) \<le> length data" using more i1 by simp
    have room1: "unat (curr_addr s1) + (length data - unat (index + 1024)) + 8192 < 4294967296"
      using room more i1 c1 by simp
    from less.hyps [OF dec inv1 b1 small ile1 room1] obtain index' s' where
      rec: "write_loop data (index + 1024) s1 = Some (Inr (index', s'))"
      and res: "session_inv base s'" "buff_index s' = 0" "unat index' \<le> length data"
        "length data - unat index' \<le> 1024"
        "unat (curr_addr s') + (length data - unat index')
           \<le> unat (curr_addr s1) + (length data - unat (index + 1024))"
      and fr: "fat s' = fat s1" "opened_file s' = opened_file s1"
      and fi': "\<forall>start D. file_inv start (D @ take (unat (index + 1024)) data) s1
            \<longrightarrow> file_inv start (D @ take (unat index') data) s'"
      by blast
    have "write_loop data index s = Some (Inr (index', s'))"
      using True mc w rec
      by (subst write_loop.simps) (simp add: sb_def FLASH_STORAGE_FIFO_BUFFER_SIZE_def)
    moreover have "unat (curr_addr s') + (length data - unat index')
         \<le> unat (curr_addr s) + (length data - unat index)"
      using res(5) c1 i1 more by simp
    moreover have "fat s' = fat s" "opened_file s' = opened_file s"
      by (simp_all add: fr fr1)
    moreover have "\<forall>start D. file_inv start (D @ take (unat index) data) s
            \<longrightarrow> file_inv start (D @ take (unat index') data) s'"
      using fi1 fi' by blast
    ultimately show ?thesis using res(1-4) by blast
  qed
qed

lemma no_lookahead_erase:
  assumes "session_inv base s"
  shows "\<not> max_erased_addr s - lookahead_erase_size < curr_addr s"
proof -
  from session_inv_gap [OF assms]
  have g: "unat (curr_addr s) + 1024 \<le> unat (max_erased_addr s)" .
  then have "unat (max_erased_addr s - 1024) = unat (max_erased_addr s) - 1024"
    by (subst u_sub) simp_all
  with g show ?thesis
    by (simp add: lookahead_erase_size_def word_less_nat_alt)
qed

lemma write_total:
  assumes inv: "session_inv base s"
    and room: "unat (curr_addr s) + unat (buff_index s) + length data + 8192 < 4294967296"
  shows "\<exists>s'. write s data = Some (Inr (FLASH_STORAGE_OK, s')) \<and> session_inv base s'
     \<and> unat (curr_addr s') + unat (buff_index s')
         \<le> unat (curr_addr s) + unat (buff_index s) + length data
     \<and> fat s' = fat s \<and> opened_file s' = opened_file s
     \<and> (\<forall>start D. file_inv start D s \<longrightarrow> file_inv start (D @ data) s')"
proof -
  let ?len = "of_nat (length data) :: uint"
  let ?rem = "FLASH_STORAGE_FIFO_BUFFER_SIZE - buff_index s"
  from inv have md: "mode s = FLASH_STORAGE_WRITE_MODE" and bi: "unat (buff_index s) \<le> 1024"
    by (simp_all add: session_inv_def)
  from room have ul: "unat ?len = length data" by (intro unat_length) simp
  from bi have ur: "unat ?rem = 1024 - unat (buff_index s)"
    unfolding FLASH_STORAGE_FIFO_BUFFER_SIZE_def by (subst u_sub) simp_all
  have fill: "\<exists>s3. write_fill s data = Some (Inr s3) \<and> session_inv base s3
     \<and> unat (curr_addr s3) + unat (buff_index s3)
         \<le> unat (curr_addr s) + unat (buff_index s) + length data
     \<and> fat s3 = fat s \<and> opened_file s3 = opened_file s
     \<and> (\<forall>start D. file_inv start D s \<longrightarrow> file_inv start (D @ data) s3)"
  proof (cases "?len < ?rem")
    case True
    then have fits: "unat (buff_index s) + length data < 1024"
      using ul ur by (simp add: word_less_nat_alt)
    then have ub: "unat (buff_index s + ?len) = unat (buff_index s) + length data"
      using ul by (subst u_add) simp_all
    define b where "b = take (unat (buff_index s)) (buff s) @ data
      @ drop (unat (buff_index s) + length data) (buff s)"
    have mc: "memcpy (unat FLASH_STORAGE_FIFO_BUFFER_SIZE) (buff s) (unat (buff_index s)) data
        = Inr b"
      using fits by (simp add: memcpy_def FLASH_STORAGE_FIFO_BUFFER_SIZE_def b_def)
    have "session_inv base (s\<lparr>buff := b, buff_index := buff_index s + ?len\<rparr>)"
      by (rule session_inv_buffer [OF inv]) (use ub fits in simp)
    moreover have "file_inv start (D @ data) (s\<lparr>buff := b, buff_index := buff_index s + ?len\<rparr>)"
      if "file_inv start D s" for start D
      unfolding b_def by (rule file_inv_append [OF that]) (use fits ub in simp_all)
    ultimately show ?thesis using True mc ub
      by (simp add: write_fill_def Let_def)
  next
    case False
    then have over: "1024 \<le> unat (buff_index s) + length data"
      using ul ur by (simp add: word_less_nat_alt)
    define head where "head = take (unat ?rem) data"
    from over ur have hl: "length head = 1024 - unat (buff_index s)" by (simp add: head_def)
    define b where "b = take (unat (buff_index s)) (buff s) @ head
      @ drop (unat (buff_index s) + length head) (buff s)"
    have mc: "memcpy (unat FLASH_STORAGE_FIFO_BUFFER_SIZE) (buff s) (unat (buff_index s))
        (take (unat ?rem) data) = Inr b"
      using hl bi by (simp add: memcpy_def FLASH_STORAGE_FIFO_BUFFER_SIZE_def b_def head_def)
    define sb where "sb = s\<lparr>buff := b, buff_index := buff_index s + ?rem\<rparr>"
    have fullb: "buff_index sb = 1024"
      by (simp add: sb_def FLASH_STORAGE_FIFO_BUFFER_SIZE_def)
    have invb: "session_inv base sb" unfolding sb_def
      by (rule session_inv_buffer [OF inv]) (simp add: FLASH_STORAGE_FIFO_BUFFER_SIZE_def)
    from inv have "unat (max_erased_addr s) \<le> unat (curr_addr s) + 4096"
      by (simp add: session_inv_def)
    with room have roomb: "unat (max_erased_addr sb) + 4096 < 4294967296"
      by (simp add: sb_def)
    from writeFIFO_full [OF invb fullb roomb] obtain s1 where
      w: "writeFIFO sb = Inr (FLASH_STORAGE_OK, s1)" and inv1: "session_inv base s1"
      and b1: "buff_index s1 = 0" and c1: "unat (curr_addr s1) = unat (curr_addr s) + 1024"
      by (auto simp: sb_def)
    have fr1: "fat s1 = fat s" "opened_file s1 = opened_file s"
      using writeFIFO_frame [OF w] by (simp_all add: sb_def)
    have fi1: "file_inv start (D @ take (unat ?rem) data) s1"
      if fi: "file_inv start D s" for start D
    proof -
      have "file_inv start (D @ head) sb"
        unfolding sb_def b_def
        by (rule file_inv_append [OF fi]) (use hl bi ur in \<open>simp_all add: FLASH_STORAGE_FIFO_BUFFER_SIZE_def\<close>)
      from flush_file [OF invb this roomb] w show ?thesis by (auto simp: head_def)
    qed
    have small: "length data + 1024 < 4294967296" using room by simp
    have ile: "unat ?rem \<le> length data" using over ur by simp
    have room1: "unat (curr_addr s1) + (length data - unat ?rem) + 8192 < 4294967296"
      using room c1 ur over by simp
    from write_loop_total [OF inv1 b1 small ile room1] obtain index s2 where
      lp: "write_loop data ?rem s1 = Some (Inr (index, s2))"
      and inv2: "session_inv base s2" and b2: "buff_index s2 = 0"
      and il: "unat index \<le> length data" and tl: "length data - unat index \<le> 1024"
      and acc: "unat (curr_addr s2) + (length data - unat index)
           \<le> unat (curr_addr s1) + (length data - unat ?rem)"
      and fr2: "fat s2 = fat s1" "opened_file s2 = opened_file s1"
      and fi2: "\<forall>start D. file_inv start (D @ take (unat ?rem) data) s1
            \<longrightarrow> file_inv start (D @ take (unat index) data) s2"
      by blast
    from il ul have ut: "unat (?len - index) = length data - unat index"
      by (subst u_sub) simp_all
    define tail where "tail = take (unat (?len - index)) (drop (unat index) data)"
    from ut have tll: "length tail = length data - unat index" by (simp add: tail_def)
    define b3 where "b3 = take 0 (buff s2) @ tail @ drop (0 + length tail) (buff s2)"
    have mc3: "memcpy (unat FLASH_STORAGE_FIFO_BUFFER_SIZE) (buff s2) 0
        (take (unat (?len - index)) (drop (unat index) data)) = Inr b3"
      using tll tl by (simp add: memcpy_def FLASH_STORAGE_FIFO_BUFFER_SIZE_def b3_def tail_def)
    define s3 where "s3 = s2\<lparr>buff := b3, buff_index := buff_index s2 + (?len - index)\<rparr>"
    have inv3: "session_inv base s3" unfolding s3_def
      by (rule session_inv_buffer [OF inv2]) (use b2 ut tl in simp)
    have "write_fill s data = Some (Inr s3)"
      using False mc w lp mc3
      by (simp add: write_fill_def Let_def sb_def s3_def)
    moreover have "unat (curr_addr s3) + unat (buff_index s3)
         \<le> unat (curr_addr s) + unat (buff_index s) + length data"
      using acc c1 ur over b2 ut by (simp add: s3_def)
    moreover have "fat s3 = fat s" "opened_file s3 = opened_file s"
      by (simp_all add: s3_def fr2 fr1)
    moreover have "file_inv start (D @ data) s3" if fi: "file_inv start D s" for start D
    proof -
      from fi1 [OF fi] fi2 have "file_inv start (D @ take (unat index) data) s2" by blast
      then have "file_inv start ((D @ take (unat index) data) @ tail) s3"
        unfolding s3_def b3_def
        using file_inv_append [of start "D @ take (unat index) data" s2 tail
            "buff_index s2 + (?len - index)"] b2 tll tl ut
        by simp
      moreover from ut have "tail = drop (unat index) data" by (simp add: tail_def)
      ultimately show ?thesis by simp
    qed
    ultimately show ?thesis using inv3 by blast
  qed
  then obtain s3 where f: "write_fill s data = Some (Inr s3)" and inv3: "session_inv base s3"
    and acc: "unat (curr_addr s3) + unat (buff_index s3)
         \<le> unat (curr_addr s) + unat (buff_index s) + length data"
    and fr3: "fat s3 = fat s" "opened_file s3 = opened_file s"
    and fi3: "\<forall>start D. file_inv start D s \<longrightarrow> file_inv start (D @ data) s3"
    by blast
  from md f no_lookahead_erase [OF inv3] have "write s data = Some (Inr (FLASH_STORAGE_OK, s3))"
    by (simp add: write_def)
  with inv3 acc fr3 fi3 show ?thesis by blast
qed

lemma writes_total:
  assumes "session_inv base s"
    and "unat (curr_addr s) + unat (buff_index s) + sum_list (map length ws) + 8192 < 4294967296"
  shows "\<exists>s'. writes s ws = Some (Inr (replicate (length ws) FLASH_STORAGE_OK, s'))
     \<and> session_inv base s' \<and> fat s' = fat s \<and> opened_file s' = opened_file s
     \<and> (\<forall>start D. file_inv start D s \<longrightarrow> file_inv start (D @ concat ws) s')"
  using assms
proof (induction ws arbitrary: s)
  case Nil
  then show ?case by simp
next
  case (Cons d ds)
  from Cons.prems(2)
  have room: "unat (curr_addr s) + unat (buff_index s) + length d + 8192 < 4294967296"
    by simp
  from write_total [OF Cons.prems(1) room] obtain s1 where
    w: "write s d = Some (Inr (FLASH_STORAGE_OK, s1))" and inv1: "session_inv base s1"
    and acc: "unat (curr_addr s1) + unat (buff_index s1)
         \<le> unat (curr_addr s) + unat (buff_index s) + length d"
    and fr1: "fat s1 = fat s" "opened_file s1 = opened_file s"
    and fi1: "\<forall>start D. file_inv start D s \<longrightarrow> file_inv start (D @ d) s1"
    by blast
  from acc Cons.prems(2)
  have room1: "unat (curr_addr s1) + unat (buff_index s1) + sum_list (map length ds) + 8192
      < 4294967296"
    by simp
  from Cons.IH [OF inv1 room1] obtain s' where
    ws: "writes s1 ds = Some (Inr (replicate (length ds) FLASH_STORAGE_OK, s'))"
    and inv': "session_inv base s'"
    and fr': "fat s' = fat s1" "opened_file s' = opened_file s1"
    and fi': "\<forall>start D. file_inv start D s1 \<longrightarrow> file_inv start (D @ concat ds) s'"
    by blast
  have "file_inv start (D @ concat (d # ds)) s'" if "file_inv start D s" for start D
  proof -
    from that fi1 have "file_inv start (D @ d) s1" by blast
    with fi' have "file_inv start ((D @ d) @ concat ds) s'" by blast
    then show ?thesis by simp
  qed
  with w ws inv' fr1 fr' show ?case by simp
qed

section \<open>The session that newFile opens\<close>

lemma newFile_created:
  assumes cl: "close s = Inr (rc, sc)"
    and br: "file_count (fat sc) + 1 < FLASH_STORAGE_MAX_FILE_NUMBER"
  shows "newFile s = Inr (FLASH_STORAGE_OK, created sc)"
proof -
  let ?c = "file_count (fat sc)"
  define new where "new = next_start (fat sc)"
  define t where "t = (fat sc)\<lparr>file_count := ?c + 1,
                 files := (files (fat sc))
                   (?c := (files (fat sc) ?c)\<lparr>start_addr := new, end_addr := new\<rparr>)\<rparr>"
  define s2 where "s2 = sc\<lparr>fat := t, opened_file := ?c + 1, mode := FLASH_STORAGE_WRITE_MODE,
      flash := wait_idle (sectorErase (writeEnable (wait_idle (flash sc))) new),
      curr_addr := new, max_erased_addr := new + 4096\<rparr>"
  have idle: "busy_polls (flash s2) = 0" by (simp add: s2_def)
  have cnt: "unat (file_count (fat s2)) \<le> 32"
    using br by (simp add: s2_def t_def word_less_nat_alt FLASH_STORAGE_MAX_FILE_NUMBER_def)
  have "newFile s = writeFAT s2"
    using cl br
    by (simp add: newFile_def Let_def s2_def t_def new_def next_start_def)
  also have "\<dots> = Inr (FLASH_STORAGE_OK, created sc)"
    by (subst writeFAT_small [OF idle cnt])
      (simp add: created_def Let_def s2_def t_def new_def)
  finally show ?thesis .
qed

lemma newFile_ok:
  assumes cl: "close s = Inr (rc, sc)" and lt: "unat (file_count (fat sc)) < 31"
  shows "newFile s = Inr (FLASH_STORAGE_OK, created sc)"
proof -
  from lt have "unat (file_count (fat sc) + 1) = unat (file_count (fat sc)) + 1"
    by (subst u_add) simp_all
  with lt have "file_count (fat sc) + 1 < FLASH_STORAGE_MAX_FILE_NUMBER"
    by (simp add: word_less_nat_alt FLASH_STORAGE_MAX_FILE_NUMBER_def)
  with cl show ?thesis by (rule newFile_created)
qed


lemma push_bit_12_dvd: "4096 dvd unat (push_bit 12 (w :: uint))"
proof -
  have "unat (push_bit 12 w) = (unat w * 4096) mod 4294967296"
    by (simp add: push_bit_eq_mult unat_word_ariths)
  moreover have "(4096 :: nat) dvd 4294967296" by simp
  ultimately show ?thesis by (simp add: dvd_mod)
qed

lemma next_start_dvd: "4096 dvd unat (next_start t)"
  by (simp add: next_start_def push_bit_12_dvd)

lemma other_sector:
  assumes "4096 \<le> unat (x :: uint)"
  shows "drop_bit 12 x \<noteq> drop_bit 12 0"
proof -
  from assms have "0 < unat x div 4096" by (simp add: div_greater_zero_iff)
  then have "unat (drop_bit 12 x) \<noteq> 0" by (simp add: drop_bit_eq_div unat_div)
  then show ?thesis by (auto simp: unat_eq_zero)
qed

lemma created_fields:
  "mode (created sc) = FLASH_STORAGE_WRITE_MODE"
  "buff_index (created sc) = buff_index sc"
  "buff (created sc) = buff sc"
  "curr_addr (created sc) = next_start (fat sc)"
  "max_erased_addr (created sc) = next_start (fat sc) + 4096"
  "opened_file (created sc) = file_count (fat sc) + 1"
  "file_count (fat (created sc)) = file_count (fat sc) + 1"
  "files (fat (created sc)) = (files (fat sc))
     (file_count (fat sc) := (files (fat sc) (file_count (fat sc)))
        \<lparr>start_addr := next_start (fat sc), end_addr := next_start (fat sc)\<rparr>)"
  by (simp_all add: created_def Let_def)

lemma created_issued:
  "\<exists>n. issued (flash (created sc)) = issued (flash sc)
     @ [WriteEnable, SectorErase (next_start (fat sc)), WriteEnable, SectorErase 0,
        WriteEnable, PageProgram 0 n]"
  by (simp add: created_def Let_def)

lemma created_session_inv:
  assumes bi: "unat (buff_index sc) \<le> 1024"
    and lt: "file_count (fat sc) + 1 < FLASH_STORAGE_MAX_FILE_NUMBER"
    and nz: "next_start (fat sc) \<noteq> 0"
    and room: "unat (next_start (fat sc)) + 4096 < 4294967296"
  shows "session_inv (length (issued (flash sc))) (created sc)"
proof -
  let ?new = "next_start (fat sc)"
  have dv: "4096 dvd unat ?new" by (rule next_start_dvd)
  from nz have "unat ?new \<noteq> 0" by (simp add: unat_eq_zero)
  with dv have big: "4096 \<le> unat ?new" by (auto elim!: dvdE)
  from room have m: "unat (?new + 4096) = unat ?new + 4096" by (subst u_add) simp_all
  from dv have dv1: "1024 dvd unat ?new" by (rule dvd_trans [rotated]) simp
  from created_issued [of sc] obtain n where
    iss: "issued (flash (created sc)) = issued (flash sc)
     @ [WriteEnable, SectorErase ?new, WriteEnable, SectorErase 0, WriteEnable, PageProgram 0 n]"
    by blast
  have es: "erased_since (length (issued (flash sc))) (created sc) = [?new, 0]"
    by (simp add: erased_since_def iss)
  from lt have c1: "unat (file_count (fat sc) + 1) < 32"
    by (simp add: word_less_nat_alt FLASH_STORAGE_MAX_FILE_NUMBER_def)
  have cells: "cells (flash (created sc)) x = 0xFF"
    if x: "unat ?new \<le> unat x" "unat x < unat ?new + 4096" for x
  proof -
    from x big have xb: "4096 \<le> unat x" by simp
    have "length (writeFAT_buff t (file_count (fat sc) + 1)) \<le> unat (x - 0)"
      if "file_count t = file_count (fat sc) + 1" for t
      using that c1 xb by (simp add: length_writeFAT_buff)
    then have "cells (flash (created sc)) x
        = erased (erased (cells (flash sc)) ?new) 0 x"
      by (simp add: created_def Let_def cells_pageProgram_outside cells_sectorErase)
    also have "\<dots> = erased (cells (flash sc)) ?new x"
      using other_sector [OF xb] by (simp add: erased_def)
    also have "\<dots> = 0xFF"
      using same_sector [OF dv x] by (simp add: erased_def)
    finally show ?thesis .
  qed
  show ?thesis
    unfolding session_inv_def
    using bi dv dv1 m big nz cells
    by (simp add: created_fields es iss)
qed

section \<open>The erase scheduler\<close>

text \<open>
  C4: the erase scheduler keeps its invariant through every write session. Let \<open>newFile\<close>
  have returned Ok, with the fill index within the buffer, and let neither the start
  address nor the addresses of the session wrap around \<open>2^32\<close>. Then every sequence of
  \<open>write\<close> calls returns, each call with Ok, and afterwards the cursor is below the erased
  frontier, the buffered bytes end at or below it, every cell from the cursor up to the
  frontier is erased (it reads \<open>0xFF\<close>), and the sector that ends at the frontier was sent
  exactly one erase since the \<open>close\<close> that \<open>newFile\<close> started with. The sequence is
  arbitrary, so this holds after each of its calls.
\<close>

theorem erase_lookahead_invariant:
  assumes cl: "close s0 = Inr (rc, sc)"
    and nf: "newFile s0 = Inr (FLASH_STORAGE_OK, s1)"
    and bi: "buff_index s1 \<le> FLASH_STORAGE_FIFO_BUFFER_SIZE"
    and nz: "curr_addr s1 \<noteq> 0"
    and room: "unat (curr_addr s1) + sum_list (map length ws) + 16384 < 4294967296"
  shows "\<exists>s'. writes s1 ws = Some (Inr (replicate (length ws) FLASH_STORAGE_OK, s'))
     \<and> curr_addr s' < max_erased_addr s'
     \<and> unat (curr_addr s') + unat (buff_index s') \<le> unat (max_erased_addr s')
     \<and> (\<forall>x. curr_addr s' \<le> x \<and> x < max_erased_addr s' \<longrightarrow> cells (flash s') x = 0xFF)
     \<and> count_list (erased_since (length (issued (flash sc))) s') (max_erased_addr s' - 4096) = 1"
proof -
  have lt: "file_count (fat sc) + 1 < FLASH_STORAGE_MAX_FILE_NUMBER"
  proof (rule ccontr)
    assume "\<not> file_count (fat sc) + 1 < FLASH_STORAGE_MAX_FILE_NUMBER"
    with cl nf show False by (simp add: newFile_def)
  qed
  from newFile_created [OF cl lt] nf have s1: "s1 = created sc" by simp
  from bi have bi': "unat (buff_index sc) \<le> 1024"
    by (simp add: s1 created_fields word_le_nat_alt FLASH_STORAGE_FIFO_BUFFER_SIZE_def)
  from nz have nz': "next_start (fat sc) \<noteq> 0" by (simp add: s1 created_fields)
  from room have room': "unat (next_start (fat sc)) + 4096 < 4294967296"
    by (simp add: s1 created_fields)
  have inv: "session_inv (length (issued (flash sc))) s1"
    unfolding s1 by (rule created_session_inv [OF bi' lt nz' room'])
  from bi' room have room1: "unat (curr_addr s1) + unat (buff_index s1)
      + sum_list (map length ws) + 8192 < 4294967296"
    by (simp add: s1 created_fields)
  from writes_total [OF inv room1] obtain s' where
    w: "writes s1 ws = Some (Inr (replicate (length ws) FLASH_STORAGE_OK, s'))"
    and inv': "session_inv (length (issued (flash sc))) s'"
    by blast
  from inv' have "1024 dvd unat (curr_addr s')" "4096 dvd unat (max_erased_addr s')"
    "unat (curr_addr s') < unat (max_erased_addr s')" "unat (buff_index s') \<le> 1024"
    by (simp_all add: session_inv_def)
  then have "unat (curr_addr s') + unat (buff_index s') \<le> unat (max_erased_addr s')"
    by (elim dvdE) simp
  moreover from inv' have "curr_addr s' < max_erased_addr s'"
    and "\<forall>x. curr_addr s' \<le> x \<and> x < max_erased_addr s' \<longrightarrow> cells (flash s') x = 0xFF"
    and "count_list (erased_since (length (issued (flash sc))) s') (max_erased_addr s' - 4096) = 1"
    by (simp_all add: session_inv_def word_less_nat_alt word_le_nat_alt)
  ultimately show ?thesis using w by blast
qed

theorem erase_lookahead_invariant_witness:
  "close fresh_store = Inr (FLASH_STORAGE_OK, fresh_store)
   \<and> newFile fresh_store = Inr (FLASH_STORAGE_OK, created fresh_store)
   \<and> buff_index (created fresh_store) = 0 \<and> curr_addr (created fresh_store) = 4096
   \<and> (\<exists>s'. writes (created fresh_store) two_writes
         = Some (Inr (replicate (length two_writes) FLASH_STORAGE_OK, s'))
     \<and> curr_addr s' < max_erased_addr s'
     \<and> unat (curr_addr s') + unat (buff_index s') \<le> unat (max_erased_addr s')
     \<and> (\<forall>x. curr_addr s' \<le> x \<and> x < max_erased_addr s' \<longrightarrow> cells (flash s') x = 0xFF)
     \<and> count_list (erased_since (length (issued (flash fresh_store))) s')
          (max_erased_addr s' - 4096) = 1)"
proof -
  have cl: "close fresh_store = Inr (FLASH_STORAGE_OK, fresh_store)"
    by (simp add: close_def fresh_store_def)
  have nf: "newFile fresh_store = Inr (FLASH_STORAGE_OK, created fresh_store)"
    by (rule newFile_ok [OF cl]) (simp add: fresh_store_def)
  have ca: "curr_addr (created fresh_store) = 4096"
    by (simp add: created_fields next_start_def fresh_store_def)
  have bi: "buff_index (created fresh_store) = 0"
    by (simp add: created_fields fresh_store_def)
  have "\<exists>s'. writes (created fresh_store) two_writes
         = Some (Inr (replicate (length two_writes) FLASH_STORAGE_OK, s'))
     \<and> curr_addr s' < max_erased_addr s'
     \<and> unat (curr_addr s') + unat (buff_index s') \<le> unat (max_erased_addr s')
     \<and> (\<forall>x. curr_addr s' \<le> x \<and> x < max_erased_addr s' \<longrightarrow> cells (flash s') x = 0xFF)
     \<and> count_list (erased_since (length (issued (flash fresh_store))) s')
          (max_erased_addr s' - 4096) = 1"
    by (rule erase_lookahead_invariant [OF cl nf])
      (simp_all add: ca bi two_writes_def FLASH_STORAGE_FIFO_BUFFER_SIZE_def)
  with cl nf bi ca show ?thesis by (intro conjI)
qed

section \<open>New files in a row\<close>











section \<open>The table written and read back\<close>








lemma length_writeFAT_record [simp]: "length (writeFAT_record f) = 5"
  by (simp add: writeFAT_record_def)


lemma page_rule_at_0: "unat ((0 :: uint) AND 0xFF) = 0"
  by simp








section \<open>Closing and opening again\<close>

lemma writeFAT_keeps:
  assumes idle: "busy_polls d = 0" and cnt: "unat (file_count t) \<le> 32"
    and x: "4096 \<le> unat x"
  shows "cells (pageProgram (writeEnable (wait_idle (sectorErase (writeEnable d) 0))) 0
            (writeFAT_buff t opened)) x = cells d x"
proof -
  from cnt x have "length (writeFAT_buff t opened) \<le> unat (x - 0)"
    by (simp add: length_writeFAT_buff)
  then have "cells (pageProgram (writeEnable (wait_idle (sectorErase (writeEnable d) 0))) 0
            (writeFAT_buff t opened)) x = cells (sectorErase (writeEnable d) 0) x"
    by (simp add: cells_pageProgram_outside)
  also have "\<dots> = erased (cells d) 0 x" using idle by (simp add: cells_sectorErase)
  also have "\<dots> = cells d x" using other_sector [OF x] by (simp add: erased_def)
  finally show ?thesis .
qed

lemma close_session:
  assumes inv: "session_inv base s" and fi: "file_inv start D s"
    and cnt: "unat (file_count (fat s)) \<le> 32" and st: "4096 \<le> unat start"
    and room: "unat (max_erased_addr s) + 4096 < 4294967296"
  shows "\<exists>sc. close s = Inr (FLASH_STORAGE_OK, sc)
     \<and> mode sc = FLASH_STORAGE_WRITE_MODE \<and> buff_index sc = 0 \<and> curr_addr sc = 0
     \<and> max_erased_addr sc = 0 \<and> opened_file sc = 0
     \<and> fat sc = (fat s)\<lparr>files := (files (fat s))
           (opened_file s - 1 := (files (fat s) (opened_file s - 1))
              \<lparr>end_addr := start + of_nat (length D)\<rparr>)\<rparr>
     \<and> (\<forall>k. k < length D \<longrightarrow> cells (flash sc) (start + of_nat k) = D ! k)"
proof -
  from inv have md: "mode s = FLASH_STORAGE_WRITE_MODE" by (simp add: session_inv_def)
  from flush_file [OF inv fi room] obtain s1 where
    w: "writeFIFO s = Inr (FLASH_STORAGE_OK, s1)" and fi1: "file_inv start D s1"
    and f1: "buff_index s1 = 0" "mode s1 = mode s" "opened_file s1 = opened_file s"
      "fat s1 = fat s"
    and cu: "unat (curr_addr s1) = unat start + length D"
    by blast
  from cu have fit: "unat start + length D < 4294967296"
    using unat_bound [of "curr_addr s1"] by simp
  then have "unat (start + of_nat (length D)) = unat start + length D"
    by (subst u_add) (simp_all add: unat_small)
  with cu have ca: "curr_addr s1 = start + of_nat (length D)"
    by (simp add: word_unat_eq_iff)
  define t where "t = (fat s)\<lparr>files := (files (fat s))
           (opened_file s - 1 := (files (fat s) (opened_file s - 1))
              \<lparr>end_addr := start + of_nat (length D)\<rparr>)\<rparr>"
  define s3 where "s3 = s1\<lparr>fat := t, opened_file := 0, flash := wait_idle (flash s1)\<rparr>"
  have idle: "busy_polls (flash s3) = 0" by (simp add: s3_def)
  have cnt3: "unat (file_count (fat s3)) \<le> 32" using cnt by (simp add: s3_def t_def)
  define sc where "sc = s3\<lparr>flash := pageProgram (writeEnable (wait_idle
      (sectorErase (writeEnable (flash s3)) 0))) 0 (writeFAT_buff (fat s3) (opened_file s3)),
      curr_addr := 0, max_erased_addr := 0\<rparr>"
  have cl: "close s = Inr (FLASH_STORAGE_OK, sc)"
    unfolding close_def
    using md w writeFAT_small [OF idle cnt3]
    by (simp add: Let_def f1 ca s3_def t_def sc_def)
  have cells: "cells (flash sc) (start + of_nat k) = D ! k" if k: "k < length D" for k
  proof -
    from k fit have ux: "unat (start + of_nat k) = unat start + k"
      by (subst u_add) (simp_all add: unat_small)
    with st have "4096 \<le> unat (start + of_nat k)" by simp
    from writeFAT_keeps [OF idle cnt3 this]
    have "cells (flash sc) (start + of_nat k) = cells (flash s1) (start + of_nat k)"
      by (simp add: sc_def s3_def)
    also from fi1 k cu have "\<dots> = D ! k" by (simp add: file_inv_def)
    finally show ?thesis .
  qed
  have "mode sc = FLASH_STORAGE_WRITE_MODE" "buff_index sc = 0" "curr_addr sc = 0"
    "max_erased_addr sc = 0" "opened_file sc = 0" "fat sc = t"
    by (simp_all add: sc_def s3_def f1 md)
  with cl cells show ?thesis unfolding t_def by blast
qed

lemma close_again:
  assumes md: "mode s = FLASH_STORAGE_WRITE_MODE"
    and z: "buff_index s = 0" "curr_addr s = 0" "max_erased_addr s = 0"
    and cnt: "unat (file_count (fat s)) \<le> 32"
  shows "\<exists>s'. close s = Inr (FLASH_STORAGE_OK, s')
     \<and> file_count (fat s') = file_count (fat s)
     \<and> (\<forall>j. j \<noteq> opened_file s - 1 \<longrightarrow> files (fat s') j = files (fat s) j)
     \<and> (\<forall>x. 4096 \<le> unat x \<longrightarrow> cells (flash s') x = cells (flash s) x)"
proof -
  define s0 where "s0 = s\<lparr>flash := sectorErase (writeEnable (wait_idle (flash s))) 0,
      max_erased_addr := 4096\<rparr>"
  define s1 where "s1 = s0\<lparr>flash := pageProgram (writeEnable (wait_idle (flash s0))) 0 [],
      buff_index := 0\<rparr>"
  have b0: "buff_index s0 = 0" by (simp add: s0_def z)
  have w: "writeFIFO s = Inr (FLASH_STORAGE_OK, s1)"
    using writeFIFO_pages_empty [OF b0]
    by (simp add: writeFIFO_def Let_def z s0_def [symmetric] s1_def) (simp add: s0_def z)
  define t where "t = (fat s)\<lparr>files := (files (fat s))
           (opened_file s - 1 := (files (fat s) (opened_file s - 1))\<lparr>end_addr := 0\<rparr>)\<rparr>"
  define s3 where "s3 = s1\<lparr>fat := t, opened_file := 0, flash := wait_idle (flash s1)\<rparr>"
  have idle: "busy_polls (flash s3) = 0" by (simp add: s3_def)
  have cnt3: "unat (file_count (fat s3)) \<le> 32" using cnt by (simp add: s3_def t_def)
  define s' where "s' = s3\<lparr>flash := pageProgram (writeEnable (wait_idle
      (sectorErase (writeEnable (flash s3)) 0))) 0 (writeFAT_buff (fat s3) (opened_file s3)),
      curr_addr := 0, max_erased_addr := 0\<rparr>"
  have cl: "close s = Inr (FLASH_STORAGE_OK, s')"
    unfolding close_def
    using md w writeFAT_small [OF idle cnt3]
    by (simp add: Let_def s3_def t_def s'_def s1_def s0_def z)
  have cells: "cells (flash s') x = cells (flash s) x" if x: "4096 \<le> unat x" for x
  proof -
    from writeFAT_keeps [OF idle cnt3 x]
    have "cells (flash s') x = cells (flash s1) x" by (simp add: s'_def s3_def)
    also have "\<dots> = cells (flash s0) x"
      by (simp add: s1_def cells_pageProgram_outside)
    also have "\<dots> = erased (cells (flash s)) 0 x"
      by (simp add: s0_def cells_sectorErase)
    also have "\<dots> = cells (flash s) x" using other_sector [OF x] by (simp add: erased_def)
    finally show ?thesis .
  qed
  have "file_count (fat s') = file_count (fat s)"
    "\<forall>j. j \<noteq> opened_file s - 1 \<longrightarrow> files (fat s') j = files (fat s) j"
    by (simp_all add: s'_def s3_def t_def)
  with cl cells show ?thesis by blast
qed

lemma read_back_file:
  assumes md: "mode s = FLASH_STORAGE_READ_MODE" and idle: "busy_polls (flash s) = 0"
    and en: "end_addr (files (fat s) (opened_file s - 1)) = curr_addr s + of_nat (length B)"
    and small: "length B < 4294967296"
    and ce: "\<forall>k. k < length B \<longrightarrow> cells (flash s) (curr_addr s + of_nat k) = B ! k"
  shows "read s (of_nat (length B)) = (of_nat (length B), B,
     s\<lparr>flash_status := W25Q64_OK, curr_addr := curr_addr s + of_nat (length B)\<rparr>)"
proof -
  from small have ul: "unat (of_nat (length B) :: uint) = length B" by (rule unat_small)
  have "map (\<lambda>k. cells (flash s) (curr_addr s + of_nat k)) [0..<length B] = B"
    using ce by (intro nth_equalityI) simp_all
  with idle have "fastRead (flash s) (curr_addr s) (of_nat (length B)) = (W25Q64_OK, B)"
    by (simp add: fastRead_def readData_def ul)
  with md show ?thesis by (simp add: read_def Let_def en)
qed

section \<open>Writing a file and reading it back\<close>

text \<open>
  C1: what is written to a new file is read back. Let \<open>newFile\<close> have returned Ok, with
  the buffer empty and of its 1024 bytes, with a table that is not empty afterwards (the
  file count has not wrapped) and with addresses of the file that do not wrap around
  \<open>2^32\<close>. Then for every byte sequence \<open>B\<close>: \<open>write\<close> of \<open>B\<close> returns Ok, \<open>close\<close> returns Ok,
  \<open>openFile\<close> of the index of the new file (the file count) returns Ok, and \<open>read\<close> of
  \<open>length B\<close> bytes returns that count and exactly the bytes \<open>B\<close>. The \<open>close\<close> that \<open>openFile\<close>
  starts with finds the mode still Writing: it flushes the empty buffer, stores an end
  address through the index \<open>0 - 1\<close> and rewrites the table, and leaves the record and the
  cells of the file as they are.
\<close>

theorem write_close_reopen:
  assumes nf: "newFile s0 = Inr (FLASH_STORAGE_OK, s1)"
    and b0: "buff_index s1 = 0" and len: "length (buff s1) = 1024"
    and cz: "file_count (fat s1) \<noteq> 0" and nz: "curr_addr s1 \<noteq> 0"
    and room: "unat (curr_addr s1) + length B + 16384 < 4294967296"
  shows "\<exists>s2 s3 s4 s5. write s1 B = Some (Inr (FLASH_STORAGE_OK, s2))
     \<and> close s2 = Inr (FLASH_STORAGE_OK, s3)
     \<and> openFile s3 (file_count (fat s1)) = Inr (FLASH_STORAGE_OK, s4)
     \<and> read s4 (of_nat (length B)) = (of_nat (length B), B, s5)"
proof -
  from nf obtain rc sc where cl: "close s0 = Inr (rc, sc)"
    by (auto simp: newFile_def split: sum.splits)
  have lt: "file_count (fat sc) + 1 < FLASH_STORAGE_MAX_FILE_NUMBER"
  proof (rule ccontr)
    assume "\<not> file_count (fat sc) + 1 < FLASH_STORAGE_MAX_FILE_NUMBER"
    with cl nf show False by (simp add: newFile_def)
  qed
  from newFile_created [OF cl lt] nf have s1: "s1 = created sc" by simp
  let ?start = "curr_addr s1" and ?k = "file_count (fat s1)"
  have st: "?start = next_start (fat sc)" and k: "?k = file_count (fat sc) + 1"
    and op1: "opened_file s1 = ?k"
    and slot: "files (fat s1) (?k - 1) = (files (fat sc) (file_count (fat sc)))
        \<lparr>start_addr := ?start, end_addr := ?start\<rparr>"
    by (simp_all add: s1 created_fields)
  from lt have k32: "unat ?k < 32"
    by (simp add: k word_less_nat_alt FLASH_STORAGE_MAX_FILE_NUMBER_def)
  from nz have "unat ?start \<noteq> 0" by (simp add: unat_eq_zero)
  with next_start_dvd [of "fat sc"] have big: "4096 \<le> unat ?start"
    by (auto simp: st elim!: dvdE)
  have inv: "session_inv (length (issued (flash sc))) s1"
    unfolding s1
    by (rule created_session_inv [OF _ lt])
      (use b0 nz room in \<open>simp_all add: s1 created_fields\<close>)
  have fi: "file_inv ?start [] s1" using len b0 by (simp add: file_inv_def)
  from room b0 have room1: "unat ?start + unat (buff_index s1) + length B + 8192 < 4294967296"
    by simp
  from write_total [OF inv room1] fi obtain s2 where
    w: "write s1 B = Some (Inr (FLASH_STORAGE_OK, s2))"
    and inv2: "session_inv (length (issued (flash sc))) s2"
    and acc: "unat (curr_addr s2) + unat (buff_index s2)
         \<le> unat ?start + unat (buff_index s1) + length B"
    and fr2: "fat s2 = fat s1" "opened_file s2 = opened_file s1"
    and fi2: "file_inv ?start B s2"
    by fastforce
  from inv2 have "unat (max_erased_addr s2) \<le> unat (curr_addr s2) + 4096"
    by (simp add: session_inv_def)
  with acc room b0 have room2: "unat (max_erased_addr s2) + 4096 < 4294967296" by simp
  from k32 have cnt2: "unat (file_count (fat s2)) \<le> 32" by (simp add: fr2)
  from close_session [OF inv2 fi2 cnt2 big room2] obtain s3 where
    c3: "close s2 = Inr (FLASH_STORAGE_OK, s3)"
    and m3: "mode s3 = FLASH_STORAGE_WRITE_MODE"
    and z3: "buff_index s3 = 0" "curr_addr s3 = 0" "max_erased_addr s3 = 0"
    and o3: "opened_file s3 = 0"
    and f3: "fat s3 = (fat s2)\<lparr>files := (files (fat s2))
           (opened_file s2 - 1 := (files (fat s2) (opened_file s2 - 1))
              \<lparr>end_addr := ?start + of_nat (length B)\<rparr>)\<rparr>"
    and ce3: "\<forall>j. j < length B \<longrightarrow> cells (flash s3) (?start + of_nat j) = B ! j"
    by blast
  from k32 have cnt3: "unat (file_count (fat s3)) \<le> 32" by (simp add: f3 fr2)
  from close_again [OF m3 z3 cnt3] obtain s3' where
    c3': "close s3 = Inr (FLASH_STORAGE_OK, s3')"
    and fc: "file_count (fat s3') = file_count (fat s3)"
    and fl: "\<forall>j. j \<noteq> opened_file s3 - 1 \<longrightarrow> files (fat s3') j = files (fat s3) j"
    and ce: "\<forall>x. 4096 \<le> unat x \<longrightarrow> cells (flash s3') x = cells (flash s3) x"
    by blast
  from cz have "unat ?k \<noteq> 0" by (simp add: unat_eq_zero)
  then have "unat (?k - 1) = unat ?k - 1" by (subst u_sub) simp_all
  with k32 have "?k - 1 \<noteq> 0 - 1"
    by (auto simp: word_unat_eq_iff unat_minus_one_uint)
  with fl have "files (fat s3') (?k - 1) = files (fat s3) (?k - 1)" by (simp add: o3)
  also have "\<dots> = (files (fat sc) (file_count (fat sc)))
        \<lparr>start_addr := ?start, end_addr := ?start + of_nat (length B)\<rparr>"
    by (simp add: f3 fr2 op1 slot)
  finally have rec: "files (fat s3') (?k - 1) = (files (fat sc) (file_count (fat sc)))
        \<lparr>start_addr := ?start, end_addr := ?start + of_nat (length B)\<rparr>" .
  define s4 where "s4 = s3'\<lparr>opened_file := ?k, curr_addr := ?start,
      mode := FLASH_STORAGE_READ_MODE, flash := wait_idle (flash s3')\<rparr>"
  have o4: "openFile s3 ?k = Inr (FLASH_STORAGE_OK, s4)"
    by (simp add: openFile_def c3' fc f3 fr2 Let_def rec s4_def)
  have cells4: "cells (flash s4) (curr_addr s4 + of_nat j) = B ! j" if j: "j < length B" for j
  proof -
    from j room have "unat (?start + of_nat j) = unat ?start + j"
      by (subst u_add) (simp_all add: unat_small)
    with big have "4096 \<le> unat (?start + of_nat j)" by simp
    with ce ce3 j show ?thesis by (simp add: s4_def)
  qed
  have "read s4 (of_nat (length B)) = (of_nat (length B), B,
     s4\<lparr>flash_status := W25Q64_OK, curr_addr := curr_addr s4 + of_nat (length B)\<rparr>)"
    by (rule read_back_file) (use room cells4 in \<open>simp_all add: s4_def rec\<close>)
  with w c3 o4 show ?thesis by blast
qed

theorem write_close_reopen_witness:
  "newFile fresh_store = Inr (FLASH_STORAGE_OK, created fresh_store)
   \<and> buff_index (created fresh_store) = 0 \<and> length (buff (created fresh_store)) = 1024
   \<and> file_count (fat (created fresh_store)) = 1 \<and> curr_addr (created fresh_store) = 4096
   \<and> length sample_bytes = 5000
   \<and> (\<exists>s2 s3 s4 s5.
         write (created fresh_store) sample_bytes = Some (Inr (FLASH_STORAGE_OK, s2))
       \<and> close s2 = Inr (FLASH_STORAGE_OK, s3)
       \<and> openFile s3 1 = Inr (FLASH_STORAGE_OK, s4)
       \<and> read s4 5000 = (5000, sample_bytes, s5))"
proof -
  have cl: "close fresh_store = Inr (FLASH_STORAGE_OK, fresh_store)"
    by (simp add: close_def fresh_store_def)
  have nf: "newFile fresh_store = Inr (FLASH_STORAGE_OK, created fresh_store)"
    by (rule newFile_ok [OF cl]) (simp add: fresh_store_def)
  have f: "buff_index (created fresh_store) = 0" "length (buff (created fresh_store)) = 1024"
    "file_count (fat (created fresh_store)) = 1" "curr_addr (created fresh_store) = 4096"
    by (simp_all add: created_fields next_start_def fresh_store_def)
  have l: "length sample_bytes = 5000" by (simp add: sample_bytes_def)
  from write_close_reopen [OF nf, of sample_bytes]
  have "\<exists>s2 s3 s4 s5.
         write (created fresh_store) sample_bytes = Some (Inr (FLASH_STORAGE_OK, s2))
       \<and> close s2 = Inr (FLASH_STORAGE_OK, s3)
       \<and> openFile s3 1 = Inr (FLASH_STORAGE_OK, s4)
       \<and> read s4 5000 = (5000, sample_bytes, s5)"
    by (simp add: f l)
  with nf f l show ?thesis by (intro conjI)
qed

section \<open>The fill index of the buffer\<close>

text \<open>
  C10: the fill index stays within the 1024 bytes of the buffer. Let \<open>newFile\<close> have
  returned Ok with the fill index at most 1024 and the buffer of its 1024 bytes, and let
  the addresses of the session not wrap around \<open>2^32\<close>. Then every sequence of \<open>write\<close>
  calls returns, each call with Ok, so that no copy into the buffer and no page taken out
  of it leaves the array; afterwards the fill index is at most 1024, and a flush at that
  point returns Ok with the index at 0. Every flush that returns, from whatever state,
  leaves the index at 0. The witness is a write of 5000 bytes, which takes the flush loop
  around three times.
\<close>

theorem buff_index_within_buffer:
  assumes nf: "newFile s0 = Inr (FLASH_STORAGE_OK, s1)"
    and bi: "buff_index s1 \<le> FLASH_STORAGE_FIFO_BUFFER_SIZE"
    and len: "length (buff s1) = 1024"
    and nz: "curr_addr s1 \<noteq> 0"
    and room: "unat (curr_addr s1) + sum_list (map length ws) + 16384 < 4294967296"
  shows "\<exists>s'. writes s1 ws = Some (Inr (replicate (length ws) FLASH_STORAGE_OK, s'))
     \<and> buff_index s' \<le> FLASH_STORAGE_FIFO_BUFFER_SIZE
     \<and> (\<exists>t. writeFIFO s' = Inr (FLASH_STORAGE_OK, t) \<and> buff_index t = 0)
     \<and> (\<forall>u q t. writeFIFO u = Inr (q, t) \<longrightarrow> buff_index t = 0)"
proof -
  from nf obtain rc sc where cl: "close s0 = Inr (rc, sc)"
    by (auto simp: newFile_def split: sum.splits)
  have lt: "file_count (fat sc) + 1 < FLASH_STORAGE_MAX_FILE_NUMBER"
  proof (rule ccontr)
    assume "\<not> file_count (fat sc) + 1 < FLASH_STORAGE_MAX_FILE_NUMBER"
    with cl nf show False by (simp add: newFile_def)
  qed
  from newFile_created [OF cl lt] nf have s1: "s1 = created sc" by simp
  from bi have bi': "unat (buff_index s1) \<le> 1024"
    by (simp add: word_le_nat_alt FLASH_STORAGE_FIFO_BUFFER_SIZE_def)
  have inv: "session_inv (length (issued (flash sc))) s1"
    unfolding s1
    by (rule created_session_inv [OF _ lt])
      (use bi' nz room in \<open>simp_all add: s1 created_fields\<close>)
  have fi: "file_inv (curr_addr s1) (take (unat (buff_index s1)) (buff s1)) s1"
    using len bi' by (simp add: file_inv_def)
  from bi' room have room1: "unat (curr_addr s1) + unat (buff_index s1)
      + sum_list (map length ws) + 8192 < 4294967296"
    by simp
  from writes_total [OF inv room1] fi obtain s' where
    w: "writes s1 ws = Some (Inr (replicate (length ws) FLASH_STORAGE_OK, s'))"
    and inv': "session_inv (length (issued (flash sc))) s'"
    and fi': "file_inv (curr_addr s1) (take (unat (buff_index s1)) (buff s1) @ concat ws) s'"
    by blast
  from inv' have b: "buff_index s' \<le> FLASH_STORAGE_FIFO_BUFFER_SIZE"
    by (simp add: session_inv_def word_le_nat_alt FLASH_STORAGE_FIFO_BUFFER_SIZE_def)
  from fi' have ld: "length (take (unat (buff_index s1)) (buff s1) @ concat ws)
      = unat (curr_addr s') - unat (curr_addr s1) + unat (buff_index s')"
    and le: "unat (curr_addr s1) \<le> unat (curr_addr s')"
    by (simp_all add: file_inv_def)
  from inv' have "unat (max_erased_addr s') \<le> unat (curr_addr s') + 4096"
    by (simp add: session_inv_def)
  moreover from ld le bi' have "unat (curr_addr s')
      \<le> unat (curr_addr s1) + 1024 + sum_list (map length ws)"
    by (simp add: length_concat)
  ultimately have room': "unat (max_erased_addr s') + 4096 < 4294967296"
    using room by simp
  from flush_file [OF inv' fi' room'] obtain t where
    "writeFIFO s' = Inr (FLASH_STORAGE_OK, t)" "buff_index t = 0"
    by blast
  moreover have "\<forall>u q t. writeFIFO u = Inr (q, t) \<longrightarrow> buff_index t = 0"
    using writeFIFO_frame by blast
  ultimately show ?thesis using w b by blast
qed

theorem buff_index_within_buffer_witness:
  "newFile fresh_store = Inr (FLASH_STORAGE_OK, created fresh_store)
   \<and> buff_index (created fresh_store) = 0 \<and> length (buff (created fresh_store)) = 1024
   \<and> curr_addr (created fresh_store) = 4096
   \<and> (\<exists>s'. writes (created fresh_store) long_write
         = Some (Inr (replicate (length long_write) FLASH_STORAGE_OK, s'))
       \<and> buff_index s' \<le> FLASH_STORAGE_FIFO_BUFFER_SIZE
       \<and> (\<exists>t. writeFIFO s' = Inr (FLASH_STORAGE_OK, t) \<and> buff_index t = 0))"
proof -
  have cl: "close fresh_store = Inr (FLASH_STORAGE_OK, fresh_store)"
    by (simp add: close_def fresh_store_def)
  have nf: "newFile fresh_store = Inr (FLASH_STORAGE_OK, created fresh_store)"
    by (rule newFile_ok [OF cl]) (simp add: fresh_store_def)
  have f: "buff_index (created fresh_store) = 0" "length (buff (created fresh_store)) = 1024"
    "curr_addr (created fresh_store) = 4096"
    by (simp_all add: created_fields next_start_def fresh_store_def)
  have "buff_index (created fresh_store) \<le> FLASH_STORAGE_FIFO_BUFFER_SIZE"
    "curr_addr (created fresh_store) \<noteq> 0"
    "unat (curr_addr (created fresh_store)) + sum_list (map length long_write) + 16384
      < 4294967296"
    by (simp_all add: f long_write_def FLASH_STORAGE_FIFO_BUFFER_SIZE_def)
  from buff_index_within_buffer [OF nf this(1) f(2) this(2,3)]
  have "\<exists>s'. writes (created fresh_store) long_write
         = Some (Inr (replicate (length long_write) FLASH_STORAGE_OK, s'))
       \<and> buff_index s' \<le> FLASH_STORAGE_FIFO_BUFFER_SIZE
       \<and> (\<exists>t. writeFIFO s' = Inr (FLASH_STORAGE_OK, t) \<and> buff_index t = 0)"
    by blast
  with nf f show ?thesis by (intro conjI)
qed

end
